theory Spec2Isabelle
  imports Main "HOL-Library.Word" "HOL-Library.Multiset"
    "HOL-Library.List_Lexorder" "HOL-Library.Product_Lexorder"
begin

unbundle bit_operations_syntax

section \<open>Bytes, certificates and SHA-256\<close>

type_synonym byte = "8 word"
type_synonym u32 = "32 word"

text \<open>
  An \<open>x509.Certificate\<close>. The functions of package \<open>fixchain\<close> embedded below read
  no field other than \<open>Raw\<close>, the DER encoding. Chains are slices of non-nil
  certificate pointers.
\<close>

record cert =
  Raw :: "byte list"

text \<open>
  \<open>crypto/sha256\<close> of the Go standard library (FIPS 180-4), on byte lists.
\<close>

definition rotr :: "nat \<Rightarrow> u32 \<Rightarrow> u32" where
  "rotr n w = drop_bit n w OR push_bit (32 - n) w"

definition K256 :: "u32 list" where
  "K256 = [
   1116352408, 1899447441, 3049323471, 3921009573, 961987163, 1508970993, 2453635748, 2870763221,
   3624381080, 310598401, 607225278, 1426881987, 1925078388, 2162078206, 2614888103, 3248222580,
   3835390401, 4022224774, 264347078, 604807628, 770255983, 1249150122, 1555081692, 1996064986,
   2554220882, 2821834349, 2952996808, 3210313671, 3336571891, 3584528711, 113926993, 338241895,
   666307205, 773529912, 1294757372, 1396182291, 1695183700, 1986661051, 2177026350, 2456956037,
   2730485921, 2820302411, 3259730800, 3345764771, 3516065817, 3600352804, 4094571909, 275423344,
   430227734, 506948616, 659060556, 883997877, 958139571, 1322822218, 1537002063, 1747873779,
   1955562222, 2024104815, 2227730452, 2361852424, 2428436474, 2756734187, 3204031479, 3329325298]"

definition H256 :: "u32 list" where
  "H256 = [1779033703, 3144134277, 1013904242, 2773480762,
           1359893119, 2600822924, 528734635, 1541459225]"

definition be32 :: "byte \<Rightarrow> byte \<Rightarrow> byte \<Rightarrow> byte \<Rightarrow> u32" where
  "be32 a b c d =
     push_bit 24 (ucast a) OR push_bit 16 (ucast b) OR push_bit 8 (ucast c) OR ucast d"

fun words_of :: "byte list \<Rightarrow> u32 list" where
  "words_of (a # b # c # d # r) = be32 a b c d # words_of r"
| "words_of _ = []"

definition bytes_of :: "u32 \<Rightarrow> byte list" where
  "bytes_of w = [ucast (drop_bit 24 w), ucast (drop_bit 16 w), ucast (drop_bit 8 w), ucast w]"

definition pad :: "byte list \<Rightarrow> byte list" where
  "pad m = (let n = length m; l = (word_of_nat (8 * n) :: 64 word)
            in m @ [0x80] @ replicate ((119 - n mod 64) mod 64) 0 @
               [ucast (drop_bit 56 l), ucast (drop_bit 48 l), ucast (drop_bit 40 l),
                ucast (drop_bit 32 l), ucast (drop_bit 24 l), ucast (drop_bit 16 l),
                ucast (drop_bit 8 l), ucast l])"

text \<open>
  One compression round per constant of \<open>K256\<close>. \<open>w\<close> holds the sixteen most recent
  words of the message schedule, oldest first; \<open>s\<close> the eight working variables.
\<close>

fun rounds :: "u32 list \<Rightarrow> u32 list \<Rightarrow> u32 list \<Rightarrow> u32 list" where
  "rounds [] w s = s"
| "rounds (k # ks) w s =
    (case (w, s) of
       (w0 # wr, [a, b, c, d, e, f, g, h]) \<Rightarrow>
         (let S1 = rotr 6 e XOR rotr 11 e XOR rotr 25 e;
              ch = (e AND f) XOR (NOT e AND g);
              t1 = h + S1 + ch + k + w0;
              S0 = rotr 2 a XOR rotr 13 a XOR rotr 22 a;
              mj = (a AND b) XOR (a AND c) XOR (b AND c);
              t2 = S0 + mj;
              w1 = wr ! 0; w9 = wr ! 8; w14 = wr ! 13;
              s0 = rotr 7 w1 XOR rotr 18 w1 XOR drop_bit 3 w1;
              s1 = rotr 17 w14 XOR rotr 19 w14 XOR drop_bit 10 w14;
              wn = w0 + s0 + w9 + s1
          in rounds ks (wr @ [wn]) [t1 + t2, a, b, c, d + t1, e, f, g])
     | _ \<Rightarrow> s)"

definition block :: "u32 list \<Rightarrow> u32 list \<Rightarrow> u32 list" where
  "block h w = map2 (+) h (rounds K256 w h)"

fun blocks :: "u32 list \<Rightarrow> u32 list \<Rightarrow> u32 list" where
  "blocks h ws = (if length ws < 16 then h else blocks (block h (take 16 ws)) (drop 16 ws))"

definition sha256 :: "byte list \<Rightarrow> byte list" where
  "sha256 m = concat (map bytes_of (blocks H256 (words_of (pad m))))"

text \<open>
  Go's \<open>hash.Hash\<close> as used with \<open>sha256.New\<close>: the state is the sequence of bytes
  written so far; \<open>Write\<close> appends to it; \<open>Sum b\<close> appends the digest of the bytes
  written so far to \<open>b\<close> and returns the resulting slice, leaving the state alone.
\<close>

type_synonym hasher = "byte list"

definition newHash :: hasher where
  "newHash = []"

definition Write :: "hasher \<Rightarrow> byte list \<Rightarrow> hasher" where
  "Write h p = h @ p"

definition Sum :: "hasher \<Rightarrow> byte list \<Rightarrow> byte list" where
  "Sum h b = b @ sha256 h"

definition hashSize :: nat where
  "hashSize = 32"

text \<open>
  \<open>copy(hash[:], src)\<close> into the zero-initialised result array \<open>[hashSize]byte\<close>:
  the first \<open>min hashSize (len src)\<close> bytes of \<open>src\<close>, the rest stays zero.
\<close>

definition copy_hash :: "byte list \<Rightarrow> byte list" where
  "copy_hash src = take hashSize src @ replicate (hashSize - length src) 0"

section \<open>fixchain: hash, hashChain, hashBag\<close>

text \<open>\<^verbatim>\<open>copy(hash[:], newHash().Sum(c.Raw))\<close>\<close>

definition hash :: "cert \<Rightarrow> byte list" where
  "hash c = copy_hash (Sum newHash (Raw c))"

text \<open>
  \<^verbatim>\<open>h := newHash(); for _, c := range ch { h.Write(newHash().Sum(c.Raw)) };
  copy(hash[:], h.Sum(nil))\<close>
\<close>

definition hashChain :: "cert list \<Rightarrow> byte list" where
  "hashChain ch =
     copy_hash (Sum (foldl (\<lambda>h c. Write h (Sum newHash (Raw c))) newHash ch) [])"

text \<open>
  \<open>bag.Less\<close>: shorter DER first; at equal length the first differing byte decides.
  \<open>less_bytes\<close> is the \<^verbatim>\<open>for n := range ci\<close> loop; it is entered with slices of equal
  length only, so its last equation with a non-empty first argument is never reached.
\<close>

fun less_bytes :: "byte list \<Rightarrow> byte list \<Rightarrow> bool" where
  "less_bytes (a # as) (b # bs) =
     (if a < b then True else if a > b then False else less_bytes as bs)"
| "less_bytes _ _ = False"

definition raw_Less :: "byte list \<Rightarrow> byte list \<Rightarrow> bool" where
  "raw_Less ci cj =
     (if length ci \<noteq> length cj then length ci < length cj else less_bytes ci cj)"

definition bag_Less :: "cert list \<Rightarrow> nat \<Rightarrow> nat \<Rightarrow> bool" where
  "bag_Less certs i j = raw_Less (Raw (certs ! i)) (Raw (certs ! j))"

text \<open>\<^verbatim>\<open>t := b.certs[i]; b.certs[i] = b.certs[j]; b.certs[j] = t\<close>\<close>

definition bag_Swap :: "cert list \<Rightarrow> nat \<Rightarrow> nat \<Rightarrow> cert list" where
  "bag_Swap certs i j = (let t = certs ! i in (certs[i := certs ! j])[j := t])"

text \<open>
  \<open>sort.Sort\<close> of the Go standard library, through its insertion sort (the path taken
  for slices of at most twelve elements):
  \<^verbatim>\<open>for i := a + 1; i < b; i++ { for j := i; j > a && data.Less(j, j-1); j-- { data.Swap(j, j-1) } }\<close>
  It reaches the slice through \<open>Less\<close> and \<open>Swap\<close> only.
\<close>

fun insert_down :: "cert list \<Rightarrow> nat \<Rightarrow> cert list" where
  "insert_down certs 0 = certs"
| "insert_down certs (Suc j) =
     (if bag_Less certs (Suc j) j then insert_down (bag_Swap certs (Suc j) j) j else certs)"

definition sort_Sort :: "cert list \<Rightarrow> cert list" where
  "sort_Sort certs = foldl insert_down certs [1 ..< length certs]"

text \<open>
  \<^verbatim>\<open>b := bag{certs: make([]*x509.Certificate, len(chain))}; copy(b.certs, chain);
  sort.Sort(b); return hashChain(b.certs)\<close>, on values: the copy holds the elements of
  \<open>chain\<close>. The version on an explicit store, where the copy has its own address, is
  \<open>hashBag_st\<close> below.
\<close>

definition hashBag :: "cert list \<Rightarrow> byte list" where
  "hashBag chain = hashChain (sort_Sort chain)"




section \<open>fixchain: the Logger\<close>

text \<open>
  Modelled from the spec: the type \<open>lockedMap\<close> (a mutex-protected
  \<^verbatim>\<open>map[[hashSize]byte]bool\<close>) is not among the sources. Section 4.2: \<open>get\<close> returns
  \<open>false\<close> for absent keys, \<open>set\<close> inserts or overwrites.
\<close>

type_synonym lockedMap = "byte list \<rightharpoonup> bool"

definition newLockedMap :: lockedMap where
  "newLockedMap = Map.empty"

definition lockedMap_get :: "lockedMap \<Rightarrow> byte list \<Rightarrow> bool" where
  "lockedMap_get m k = (case m k of None \<Rightarrow> False | Some v \<Rightarrow> v)"

definition lockedMap_set :: "lockedMap \<Rightarrow> byte list \<Rightarrow> bool \<Rightarrow> lockedMap" where
  "lockedMap_set m k v = m(k \<mapsto> v)"

text \<open>
  Modelled from the spec: the declaration of \<open>FixError\<close> and of its error types is not
  among the sources. Sections 3 and 7: a closed enumeration of kinds, with an optional
  URL, the chain and the underlying cause. \<open>NoFailure\<close> is the kind \<open>None\<close>.
\<close>

datatype errorType =
  NoFailure | ParseFailure | CannotFetchURL | BadURL | FailedHTTPRequest
  | LogPostFailed | VerifyFailed | FixFailed

record FixError =
  Type :: errorType
  Chain :: "cert list"
  URL :: string
  Error :: string

text \<open>\<open>ct.ASN1Cert\<close>: the DER bytes sent to the log.\<close>

record ASN1Cert =
  Data :: "byte list"

record toPost =
  chain :: "cert list"

text \<open>
  The Logger. The channel \<open>toPost\<close> is the queue of tasks sent and not yet received by a
  \<open>postServer\<close>; the channel \<open>errors\<close> is the sequence of errors sent so far; \<open>wg\<close> is
  the counter of the wait group. The counters are \<open>uint32\<close>, and \<open>atomic.AddUint32\<close>
  wraps. \<open>addChainCalls\<close> is not a field of the struct: it records, in order, the
  arguments of the calls made to \<open>client.AddChain\<close>.
\<close>

record Logger =
  toPost_chan :: "toPost list"
  errors :: "FixError list"
  active :: u32
  queued :: u32
  posted :: u32
  reposted :: u32
  chainReposted :: u32
  wg :: int
  postCertCache :: lockedMap
  postChainCache :: lockedMap
  addChainCalls :: "ASN1Cert list list"

text \<open>A Go run-time panic: indexing \<open>chain[0]\<close> of an empty slice.\<close>

datatype panic = IndexOutOfRange

text \<open>The state built by \<open>NewLogger\<close> (and by the struct literals of the tests).\<close>

definition NewLogger :: Logger where
  "NewLogger = \<lparr>toPost_chan = [], errors = [], active = 0, queued = 0, posted = 0,
     reposted = 0, chainReposted = 0, wg = 0, postCertCache = newLockedMap,
     postChainCache = newLockedMap, addChainCalls = []\<rparr>"

definition IsPosted :: "Logger \<Rightarrow> cert \<Rightarrow> bool" where
  "IsPosted l c = lockedMap_get (postCertCache l) (hash c)"

text \<open>\<^verbatim>\<open>l.wg.Add(1); l.toPost <- p\<close>\<close>

definition postToLog :: "Logger \<Rightarrow> toPost \<Rightarrow> Logger" where
  "postToLog l p = l\<lparr>wg := wg l + 1, toPost_chan := toPost_chan l @ [p]\<rparr>"

text \<open>
  \<open>Logger.QueueChain\<close>. The argument is \<open>None\<close> for a nil slice. A non-nil slice may
  be empty, and then \<open>chain[0]\<close> panics, after \<open>queued\<close> was incremented.
\<close>

definition QueueChain :: "Logger \<Rightarrow> cert list option \<Rightarrow> panic + Logger" where
  "QueueChain l ch =
     (case ch of
        None \<Rightarrow> Inr l
      | Some certs \<Rightarrow>
          (let l1 = l\<lparr>queued := queued l + 1\<rparr> in
           case certs of
             [] \<Rightarrow> Inl IndexOutOfRange
           | c # _ \<Rightarrow>
               if lockedMap_get (postCertCache l1) (hash c)
               then Inr (l1\<lparr>reposted := reposted l1 + 1\<rparr>)
               else if lockedMap_get (postChainCache l1) (hashChain certs)
               then Inr (l1\<lparr>chainReposted := chainReposted l1 + 1\<rparr>)
               else Inr (postToLog
                      (l1\<lparr>postChainCache := lockedMap_set (postChainCache l1) (hashChain certs) True\<rparr>)
                      \<lparr>chain = certs\<rparr>)))"

text \<open>
  \<open>Logger.postChain\<close>. \<open>AddChain\<close> is the answer of the log client to the request:
  \<open>None\<close> for success, \<open>Some err\<close> for an error with message \<open>err\<close>. An error of
  \<open>limiter.Wait\<close> is only written to the process log and changes nothing here.
\<close>

definition postChain ::
  "(ASN1Cert list \<Rightarrow> string option) \<Rightarrow> Logger \<Rightarrow> toPost \<Rightarrow> panic + Logger" where
  "postChain AddChain l p =
     (case chain p of
        [] \<Rightarrow> Inl IndexOutOfRange
      | c # _ \<Rightarrow>
          (let h = hash c in
           if lockedMap_get (postCertCache l) h
           then Inr (l\<lparr>reposted := reposted l + 1\<rparr>)
           else
             (let derChain = map (\<lambda>cert. \<lparr>Data = Raw cert\<rparr>) (chain p);
                  l1 = l\<lparr>posted := posted l + 1, addChainCalls := addChainCalls l @ [derChain]\<rparr>
              in case AddChain derChain of
                   Some err \<Rightarrow>
                     Inr (l1\<lparr>errors := errors l1 @
                            [\<lparr>Type = LogPostFailed, Chain = chain p, URL = [],
                              Error = ''add-chain failed: '' @ err\<rparr>]\<rparr>)
                 | None \<Rightarrow>
                     Inr (l1\<lparr>postCertCache := lockedMap_set (postCertCache l1) h True\<rparr>))))"

text \<open>
  One iteration of the loop of \<open>Logger.postServer\<close>: receive a task, or block
  (\<open>None\<close>) while the channel is empty. \<open>^uint32(0)\<close> is \<open>NOT 0\<close>.
\<close>

definition postServer ::
  "(ASN1Cert list \<Rightarrow> string option) \<Rightarrow> Logger \<Rightarrow> (panic + Logger) option" where
  "postServer AddChain l =
     (case toPost_chan l of
        [] \<Rightarrow> None
      | c # rest \<Rightarrow>
          Some (case postChain AddChain (l\<lparr>toPost_chan := rest, active := active l + 1\<rparr>) c of
                  Inl e \<Rightarrow> Inl e
                | Inr l2 \<Rightarrow> Inr (l2\<lparr>active := active l2 + NOT 0, wg := wg l2 - 1\<rparr>)))"

text \<open>
  The goroutines of one process. A call of \<open>QueueChain\<close> is not one step: it
  increments \<open>queued\<close>, reads \<open>postCertCache\<close>, reads \<open>postChainCache\<close>, writes
  \<open>postChainCache\<close> and sends on the channel, each of them an atomic operation of its
  own (an atomic add, a \<open>lockedMap\<close> operation under its mutex, a channel send), and
  other goroutines run in between. A call in flight is at one of four places:
  \<^item> \<open>Entered\<close>: \<open>queued\<close> incremented, before \<open>postCertCache.get\<close>;
  \<^item> \<open>CertMiss\<close>: \<open>postCertCache.get\<close> returned false, before \<open>postChainCache.get\<close>;
  \<^item> \<open>ChainMiss\<close>: \<open>postChainCache.get\<close> returned false, before \<open>postChainCache.set\<close>;
  \<^item> \<open>Cached\<close>: \<open>postChainCache.set\<close> done, before \<open>postToLog\<close>.
\<close>

datatype qthread =
  Entered "cert list" | CertMiss "cert list" | ChainMiss "cert list" | Cached "cert list"

text \<open>
  \<open>running serial l qs ps\<close>: the process can be in the state where the Logger is \<open>l\<close>,
  the calls of \<open>QueueChain\<close> in flight are \<open>qs\<close>, and \<open>ps\<close> are the tasks for which a
  \<open>postServer\<close> has called \<open>AddChain\<close> and waits for the answer. With \<open>serial\<close> a call
  of \<open>QueueChain\<close> starts only when none is in flight; without it calls overlap freely.
  Calls with a nil chain change nothing, and a call with an empty one ends the process
  by its panic; neither is a step. A \<open>postServer\<close> that finds the leaf in
  \<open>postCertCache\<close> increments and decrements \<open>active\<close>, which leaves it as it was.
\<close>

inductive running :: "bool \<Rightarrow> Logger \<Rightarrow> qthread list \<Rightarrow> toPost list \<Rightarrow> bool"
  for serial :: bool where
  start: "running serial NewLogger [] []"
| enter:
    "running serial l qs ps \<Longrightarrow> serial \<longrightarrow> qs = [] \<Longrightarrow>
     running serial (l\<lparr>queued := queued l + 1\<rparr>) (qs @ [Entered (c # cs)]) ps"
| cert_hit:
    "running serial l (qs @ Entered (c # cs) # qs') ps \<Longrightarrow>
     lockedMap_get (postCertCache l) (hash c) \<Longrightarrow>
     running serial (l\<lparr>reposted := reposted l + 1\<rparr>) (qs @ qs') ps"
| cert_miss:
    "running serial l (qs @ Entered (c # cs) # qs') ps \<Longrightarrow>
     \<not> lockedMap_get (postCertCache l) (hash c) \<Longrightarrow>
     running serial l (qs @ CertMiss (c # cs) # qs') ps"
| chain_hit:
    "running serial l (qs @ CertMiss certs # qs') ps \<Longrightarrow>
     lockedMap_get (postChainCache l) (hashChain certs) \<Longrightarrow>
     running serial (l\<lparr>chainReposted := chainReposted l + 1\<rparr>) (qs @ qs') ps"
| chain_miss:
    "running serial l (qs @ CertMiss certs # qs') ps \<Longrightarrow>
     \<not> lockedMap_get (postChainCache l) (hashChain certs) \<Longrightarrow>
     running serial l (qs @ ChainMiss certs # qs') ps"
| chain_set:
    "running serial l (qs @ ChainMiss certs # qs') ps \<Longrightarrow>
     running serial
       (l\<lparr>postChainCache := lockedMap_set (postChainCache l) (hashChain certs) True\<rparr>)
       (qs @ Cached certs # qs') ps"
| send:
    "running serial l (qs @ Cached certs # qs') ps \<Longrightarrow>
     running serial (postToLog l \<lparr>chain = certs\<rparr>) (qs @ qs') ps"
| receive_hit:
    "running serial l qs ps \<Longrightarrow> toPost_chan l = p # rest \<Longrightarrow> chain p = c # cs \<Longrightarrow>
     lockedMap_get (postCertCache l) (hash c) \<Longrightarrow>
     running serial (l\<lparr>toPost_chan := rest, reposted := reposted l + 1, wg := wg l - 1\<rparr>) qs ps"
| receive_miss:
    "running serial l qs ps \<Longrightarrow> toPost_chan l = p # rest \<Longrightarrow> chain p = c # cs \<Longrightarrow>
     \<not> lockedMap_get (postCertCache l) (hash c) \<Longrightarrow>
     running serial
       (l\<lparr>toPost_chan := rest, active := active l + 1, posted := posted l + 1,
          addChainCalls := addChainCalls l @ [map (\<lambda>cert. \<lparr>Data = Raw cert\<rparr>) (chain p)]\<rparr>)
       qs (ps @ [p])"
| answer_error:
    "running serial l qs (ps @ p # ps') \<Longrightarrow>
     running serial
       (l\<lparr>errors := errors l @ [\<lparr>Type = LogPostFailed, Chain = chain p, URL = [],
                                     Error = ''add-chain failed: '' @ err\<rparr>],
          active := active l + NOT 0, wg := wg l - 1\<rparr>)
       qs (ps @ ps')"
| answer_ok:
    "running serial l qs (ps @ p # ps') \<Longrightarrow> chain p = c # cs \<Longrightarrow>
     running serial
       (l\<lparr>postCertCache := lockedMap_set (postCertCache l) (hash c) True,
          active := active l + NOT 0, wg := wg l - 1\<rparr>)
       qs (ps @ ps')"

text \<open>\<open>hashChain\<close> of the chain whose DER was sent in a call of \<open>AddChain\<close>.\<close>

definition hashChain_der :: "ASN1Cert list \<Rightarrow> byte list" where
  "hashChain_der d = hashChain (map (\<lambda>a. \<lparr>Raw = Data a\<rparr>) d)"

text \<open>
  Proof-level: the ordered hashes of the chains sent to \<open>AddChain\<close> so far followed by
  those of the tasks waiting in the channel, and the invariant on them.
\<close>

definition tried :: "Logger \<Rightarrow> byte list list" where
  "tried l = map hashChain_der (addChainCalls l) @ map (\<lambda>p. hashChain (chain p)) (toPost_chan l)"

definition once_inv :: "Logger \<Rightarrow> qthread list \<Rightarrow> bool" where
  "once_inv l qs \<longleftrightarrow>
     distinct (tried l) \<and> (\<forall>h \<in> set (tried l). lockedMap_get (postChainCache l) h) \<and>
     length qs \<le> 1 \<and>
     (\<forall>certs. ChainMiss certs \<in> set qs \<longrightarrow>
        \<not> lockedMap_get (postChainCache l) (hashChain certs)) \<and>
     (\<forall>certs. Cached certs \<in> set qs \<longrightarrow>
        lockedMap_get (postChainCache l) (hashChain certs) \<and> hashChain certs \<notin> set (tried l))"


section \<open>scanner: the Fetcher\<close>

text \<open>
  \<open>int64\<close> values are integers in \<open>[-2^63, 2^63)\<close>; \<open>wrap64\<close> is the two's-complement
  wrap-around of Go's \<open>+\<close> and \<open>-\<close> on them.
\<close>

definition in_int64 :: "int \<Rightarrow> bool" where
  "in_int64 x \<longleftrightarrow> - (2 ^ 63) \<le> x \<and> x < 2 ^ 63"

definition wrap64 :: "int \<Rightarrow> int" where
  "wrap64 x = (x + 2 ^ 63) mod 2 ^ 64 - 2 ^ 63"

definition add64 :: "int \<Rightarrow> int \<Rightarrow> int" where
  "add64 a b = wrap64 (a + b)"

definition sub64 :: "int \<Rightarrow> int \<Rightarrow> int" where
  "sub64 a b = wrap64 (a - b)"

definition min64 :: "int \<Rightarrow> int \<Rightarrow> int" where
  "min64 a b = (if a < b then a else b)"

record FetcherOptions =
  BatchSize :: int
  ParallelFetch :: int
  StartIndex :: int
  EndIndex :: int
  Continuous :: bool

record fetchRange =
  range_start :: int
  range_end :: int

text \<open>\<open>EntryBatch\<close>, over any type of leaf entries.\<close>

record 'e EntryBatch =
  Start :: int
  Entries :: "'e list"

text \<open>
  \<open>Fetcher.Prepare\<close>, for a Fetcher with no cached STH. The argument is the answer of
  \<open>GetSTH\<close>: \<open>None\<close> for an error, \<open>Some size\<close> for a tree head whose \<open>TreeSize\<close>
  converts to the \<open>int64\<close> \<open>size\<close>.
\<close>

definition Prepare :: "int option \<Rightarrow> FetcherOptions \<Rightarrow> FetcherOptions option" where
  "Prepare sth opts =
     (case sth of
        None \<Rightarrow> None
      | Some sz \<Rightarrow>
          Some (if EndIndex opts = 0 \<or> EndIndex opts > sz
                then opts\<lparr>EndIndex := sz\<rparr> else opts))"

text \<open>
  The loop of the goroutine of \<open>Fetcher.genRanges\<close>; the result is the sequence of
  ranges sent on the channel until the goroutine returns.
  \<^item> \<open>fuel\<close> bounds the iterations of the model: \<open>None\<close> says that the loop was still
    running when the bound was reached.
  \<^item> \<open>cancelled i\<close> says that the \<open>select\<close> of iteration \<open>i\<close> takes the case \<^verbatim>\<open><-ctx.Done()\<close>.
  \<^item> \<open>sths k\<close> is the outcome of the \<open>k\<close>-th call of \<open>updateSTH\<close>: \<open>None\<close> for an
    error, \<open>Some e\<close> when it returns with \<open>EndIndex = e\<close>.
\<close>

fun genRanges_loop ::
  "nat \<Rightarrow> (nat \<Rightarrow> bool) \<Rightarrow> (nat \<Rightarrow> int option) \<Rightarrow> bool \<Rightarrow> int \<Rightarrow> nat \<Rightarrow> nat \<Rightarrow> int \<Rightarrow> int
     \<Rightarrow> fetchRange list option" where
  "genRanges_loop 0 cancelled sths cont batch i k start stop =
     (if start < stop \<or> cont then None else Some [])"
| "genRanges_loop (Suc fuel) cancelled sths cont batch i k start stop =
     (if start < stop \<or> cont then
        (case (if start = stop then sths k else Some stop) of
           None \<Rightarrow> Some []
         | Some stop' \<Rightarrow>
             (let batchEnd = add64 start (min64 (sub64 stop' start) batch);
                  nxt = \<lparr>range_start = start, range_end = sub64 batchEnd 1\<rparr>
              in if cancelled i then Some []
                 else map_option ((#) nxt)
                        (genRanges_loop fuel cancelled sths cont batch (Suc i)
                           (if start = stop then Suc k else k) batchEnd stop')))
      else Some [])"

definition genRanges ::
  "nat \<Rightarrow> (nat \<Rightarrow> bool) \<Rightarrow> (nat \<Rightarrow> int option) \<Rightarrow> FetcherOptions \<Rightarrow> fetchRange list option" where
  "genRanges fuel cancelled sths opts =
     genRanges_loop fuel cancelled sths (Continuous opts) (BatchSize opts) 0 0
       (StartIndex opts) (EndIndex opts)"

text \<open>
  The outcome of one request of a worker, \<open>bo.Retry\<close> around \<open>client.GetRawEntries\<close>:
  an error, or a response with its entries.
\<close>

datatype 'e response = Failed | Got "'e list"

text \<open>How a loop of the model ended: it ran to its end, it returned because the
  context was cancelled, or it was still running when the fuel ran out.\<close>

datatype status = Finished | Cancelled | Running

text \<open>
  The inner loop of \<open>Fetcher.runWorker\<close>, \<^verbatim>\<open>for r.start <= r.end\<close>, on one range. The
  result holds the batches passed to the callback \<open>fn\<close>, in order, and the number of
  requests made so far.
  \<^item> \<open>ctxErr k\<close> says that \<open>ctx.Err()\<close> is not nil before request \<open>k\<close>.
  \<^item> \<open>client k s e\<close> is the outcome of request number \<open>k\<close>, made for \<open>[s, e]\<close>.
  An error leads to \<open>continue\<close>: the same range is requested again. A response is
  passed to \<open>fn\<close> with no look at its length, and \<open>r.start\<close> advances by that length.
\<close>

fun fetch_range ::
  "nat \<Rightarrow> (nat \<Rightarrow> bool) \<Rightarrow> (nat \<Rightarrow> int \<Rightarrow> int \<Rightarrow> 'e response) \<Rightarrow> nat \<Rightarrow> int \<Rightarrow> int
     \<Rightarrow> 'e EntryBatch list \<times> nat \<times> status" where
  "fetch_range 0 ctxErr client k start stop =
     (if start \<le> stop then ([], k, Running) else ([], k, Finished))"
| "fetch_range (Suc fuel) ctxErr client k start stop =
     (if start \<le> stop then
        if ctxErr k then ([], k, Cancelled)
        else
          (case client k start stop of
             Failed \<Rightarrow> fetch_range fuel ctxErr client (Suc k) start stop
           | Got entries \<Rightarrow>
               (case fetch_range fuel ctxErr client (Suc k)
                       (add64 start (int (length entries))) stop of
                  (bs, k', st) \<Rightarrow> (\<lparr>Start = start, Entries = entries\<rparr> # bs, k', st)))
      else ([], k, Finished))"

text \<open>
  \<open>Fetcher.runWorker\<close> on the ranges it receives from the channel, in order; a
  cancelled context makes it return.
\<close>

fun runWorker ::
  "nat \<Rightarrow> (nat \<Rightarrow> bool) \<Rightarrow> (nat \<Rightarrow> int \<Rightarrow> int \<Rightarrow> 'e response) \<Rightarrow> nat \<Rightarrow> fetchRange list
     \<Rightarrow> 'e EntryBatch list \<times> nat \<times> status" where
  "runWorker fuel ctxErr client k [] = ([], k, Finished)"
| "runWorker fuel ctxErr client k (r # rs) =
     (case fetch_range fuel ctxErr client k (range_start r) (range_end r) of
        (bs, k', Finished) \<Rightarrow>
          (case runWorker fuel ctxErr client k' rs of
             (bs', k'', st) \<Rightarrow> (bs @ bs', k'', st))
      | (bs, k', st) \<Rightarrow> (bs, k', st))"

text \<open>
  \<open>Fetcher.Run\<close>. A failing \<open>GetSTH\<close> ends the run with its error (\<open>None\<close>). With
  \<open>ParallelFetch \<le> 0\<close> no worker is started and \<open>Run\<close> returns at once, with no batch
  delivered. Otherwise every range sent by the generator is received by exactly one
  worker, which runs the inner loop on it; requests are numbered in the order in which
  they are made, so the answers of the log to any interleaving of several workers are
  those of some \<open>client\<close> here, and the batches delivered are the ones listed, up to
  the order in which the workers reach the callback.
\<close>

definition Run ::
  "nat \<Rightarrow> (nat \<Rightarrow> bool) \<Rightarrow> (nat \<Rightarrow> bool) \<Rightarrow> (nat \<Rightarrow> int option) \<Rightarrow> int option
     \<Rightarrow> (nat \<Rightarrow> int \<Rightarrow> int \<Rightarrow> 'e response) \<Rightarrow> FetcherOptions
     \<Rightarrow> ('e EntryBatch list \<times> status) option" where
  "Run fuel cancelled ctxErr sths sth client opts =
     (case Prepare sth opts of
        None \<Rightarrow> None
      | Some opts' \<Rightarrow>
          Some (if ParallelFetch opts' \<le> 0 then ([], Finished)
                else
                  (case genRanges fuel cancelled sths opts' of
                     None \<Rightarrow> ([], Running)
                   | Some ranges \<Rightarrow>
                       (case runWorker fuel ctxErr client 0 ranges of
                          (bs, k, st) \<Rightarrow> (bs, st)))))"

text \<open>
  Proof-level: \<open>chained s rs e\<close> says that the ranges \<open>rs\<close> are non-empty, start at
  \<open>s\<close>, follow one another with no gap and no overlap, and end just before \<open>e\<close>;
  \<open>tiled\<close> says the same of the index spans \<open>[Start, Start + len(Entries))\<close> of
  batches.
\<close>

fun chained :: "int \<Rightarrow> fetchRange list \<Rightarrow> int \<Rightarrow> bool" where
  "chained s [] e \<longleftrightarrow> s = e"
| "chained s (r # rs) e \<longleftrightarrow>
     range_start r = s \<and> s \<le> range_end r \<and> chained (range_end r + 1) rs e"

fun tiled :: "int \<Rightarrow> 'e EntryBatch list \<Rightarrow> int \<Rightarrow> bool" where
  "tiled s [] e \<longleftrightarrow> s = e"
| "tiled s (b # bs) e \<longleftrightarrow>
     Start b = s \<and> Entries b \<noteq> [] \<and> tiled (s + int (length (Entries b))) bs e"

definition span :: "'e EntryBatch \<Rightarrow> int set" where
  "span b = {Start b ..< Start b + int (length (Entries b))}"

section \<open>hashBag on an explicit store\<close>

text \<open>
  Slices share their backing arrays, so whether \<open>hashBag\<close> changes its argument is a
  question about addresses. Here a store is the list of the backing arrays allocated so
  far, a slice is the index of its array, and a cell holds a certificate pointer, \<open>None\<close>
  for nil. \<open>make\<close> allocates a new array of nil pointers at the next free address.
\<close>

type_synonym store = "cert option list list"

datatype deref_panic = NilDereference

definition make_slice :: "store \<Rightarrow> nat \<Rightarrow> nat \<times> store" where
  "make_slice st n = (length st, st @ [replicate n None])"

text \<open>\<open>copy(dst, src)\<close> copies \<open>min (len dst) (len src)\<close> cells.\<close>

definition copy_st :: "store \<Rightarrow> nat \<Rightarrow> nat \<Rightarrow> store" where
  "copy_st st dst src =
     (let n = min (length (st ! dst)) (length (st ! src))
      in st[dst := take n (st ! src) @ drop n (st ! dst)])"

definition Len_st :: "store \<Rightarrow> nat \<Rightarrow> nat" where
  "Len_st st b = length (st ! b)"

text \<open>\<open>bag.Less\<close> reads \<open>b.certs[i].Raw\<close> and \<open>b.certs[j].Raw\<close>: a nil pointer panics.\<close>

definition Less_st :: "store \<Rightarrow> nat \<Rightarrow> nat \<Rightarrow> nat \<Rightarrow> deref_panic + bool" where
  "Less_st st b i j =
     (case (st ! b ! i, st ! b ! j) of
        (Some ci, Some cj) \<Rightarrow> Inr (raw_Less (Raw ci) (Raw cj))
      | _ \<Rightarrow> Inl NilDereference)"

text \<open>\<open>bag.Swap\<close> writes two cells of the array of \<open>b.certs\<close>.\<close>

definition Swap_st :: "store \<Rightarrow> nat \<Rightarrow> nat \<Rightarrow> nat \<Rightarrow> store" where
  "Swap_st st b i j =
     (let t = st ! b ! i in st[b := ((st ! b)[i := st ! b ! j])[j := t]])"

fun insert_down_st :: "store \<Rightarrow> nat \<Rightarrow> nat \<Rightarrow> deref_panic + store" where
  "insert_down_st st b 0 = Inr st"
| "insert_down_st st b (Suc j) =
     (case Less_st st b (Suc j) j of
        Inl e \<Rightarrow> Inl e
      | Inr lt \<Rightarrow> if lt then insert_down_st (Swap_st st b (Suc j) j) b j else Inr st)"

fun sort_loop_st :: "store \<Rightarrow> nat \<Rightarrow> nat list \<Rightarrow> deref_panic + store" where
  "sort_loop_st st b [] = Inr st"
| "sort_loop_st st b (i # is) =
     (case insert_down_st st b i of
        Inl e \<Rightarrow> Inl e
      | Inr st' \<Rightarrow> sort_loop_st st' b is)"

definition sort_Sort_st :: "store \<Rightarrow> nat \<Rightarrow> deref_panic + store" where
  "sort_Sort_st st b = sort_loop_st st b [1 ..< Len_st st b]"

text \<open>\<open>hashChain\<close> reads \<open>c.Raw\<close> of every cell of the slice.\<close>

definition hashChain_st :: "store \<Rightarrow> nat \<Rightarrow> deref_panic + byte list" where
  "hashChain_st st b =
     (if None \<in> set (st ! b) then Inl NilDereference
      else Inr (hashChain (map the (st ! b))))"

text \<open>
  \<open>hashBag\<close> with its argument at address \<open>a\<close>: the result is the hash together with
  the store after the call.
\<close>

definition hashBag_st :: "store \<Rightarrow> nat \<Rightarrow> deref_panic + (byte list \<times> store)" where
  "hashBag_st st a =
     (case make_slice st (Len_st st a) of
        (b, st1) \<Rightarrow>
          (case sort_Sort_st (copy_st st1 b a) b of
             Inl e \<Rightarrow> Inl e
           | Inr st2 \<Rightarrow>
               (case hashChain_st st2 b of
                  Inl e \<Rightarrow> Inl e
                | Inr h \<Rightarrow> Inr (h, st2))))"

section \<open>Properties of the hashes\<close>

















text \<open>
  Claim C1, which says that \<open>hash\<close> returns the SHA-256 digest of the raw DER bytes.
  The code appends the digest of the empty input to the DER bytes and keeps the first 32
  bytes of the result: for a certificate of at least 32 bytes \<open>hash\<close> is the first 32
  bytes of its DER encoding itself, and two certificates that differ only after byte 32
  receive the same hash.
\<close>

lemma hash_long_der: "32 \<le> length (Raw c) \<Longrightarrow> hash c = take 32 (Raw c)"
  by (simp add: hash_def copy_hash_def Sum_def newHash_def hashSize_def)

theorem hash_returns_der_prefix:
  "hash \<lparr>Raw = replicate 32 48 @ [1]\<rparr> = replicate 32 48 \<and>
   hash \<lparr>Raw = replicate 32 48 @ [2]\<rparr> = replicate 32 48"
  by (simp add: hash_long_der)

section \<open>Properties of the Logger\<close>

lemma QueueChain_Cons:
  "QueueChain l (Some (c # cs)) =
     Inr (if lockedMap_get (postCertCache l) (hash c)
          then l\<lparr>queued := queued l + 1, reposted := reposted l + 1\<rparr>
          else if lockedMap_get (postChainCache l) (hashChain (c # cs))
          then l\<lparr>queued := queued l + 1, chainReposted := chainReposted l + 1\<rparr>
          else l\<lparr>queued := queued l + 1,
                 postChainCache := lockedMap_set (postChainCache l) (hashChain (c # cs)) True,
                 wg := wg l + 1, toPost_chan := toPost_chan l @ [\<lparr>chain = c # cs\<rparr>]\<rparr>)"
  by (simp add: QueueChain_def postToLog_def Let_def)

text \<open>
  Claim C5. For a non-nil chain with leaf \<open>c\<close>: if the hash of the leaf is true in
  \<open>postCertCache\<close>, \<open>QueueChain\<close> increments \<open>reposted\<close>, enqueues nothing and does
  not write \<open>postChainCache\<close>; otherwise, if the hash of the chain is true in
  \<open>postChainCache\<close>, it increments \<open>chainReposted\<close> and enqueues nothing; only
  otherwise it sets \<open>postChainCache\<close> at the hash of the chain and enqueues one task
  holding the chain.
\<close>

theorem QueueChain_cases:
  "\<exists>l'. QueueChain l (Some (c # cs)) = Inr l' \<and>
     (lockedMap_get (postCertCache l) (hash c) \<longrightarrow>
        reposted l' = reposted l + 1 \<and> chainReposted l' = chainReposted l \<and>
        toPost_chan l' = toPost_chan l \<and> postChainCache l' = postChainCache l) \<and>
     (\<not> lockedMap_get (postCertCache l) (hash c) \<and>
      lockedMap_get (postChainCache l) (hashChain (c # cs)) \<longrightarrow>
        chainReposted l' = chainReposted l + 1 \<and> reposted l' = reposted l \<and>
        toPost_chan l' = toPost_chan l \<and> postChainCache l' = postChainCache l) \<and>
     (\<not> lockedMap_get (postCertCache l) (hash c) \<and>
      \<not> lockedMap_get (postChainCache l) (hashChain (c # cs)) \<longrightarrow>
        postChainCache l' = lockedMap_set (postChainCache l) (hashChain (c # cs)) True \<and>
        lockedMap_get (postChainCache l') (hashChain (c # cs)) \<and>
        toPost_chan l' = toPost_chan l @ [\<lparr>chain = c # cs\<rparr>] \<and>
        reposted l' = reposted l \<and> chainReposted l' = chainReposted l)"
  by (simp add: QueueChain_Cons lockedMap_set_def lockedMap_get_def)

theorem QueueChain_cases_witness:
  "\<exists>l'. QueueChain NewLogger (Some [\<lparr>Raw = [48, 1]\<rparr>, \<lparr>Raw = [48, 2]\<rparr>]) = Inr l' \<and>
     lockedMap_get (postChainCache l') (hashChain [\<lparr>Raw = [48, 1]\<rparr>, \<lparr>Raw = [48, 2]\<rparr>]) \<and>
     toPost_chan l' = [\<lparr>chain = [\<lparr>Raw = [48, 1]\<rparr>, \<lparr>Raw = [48, 2]\<rparr>]\<rparr>]"
  using QueueChain_cases [of NewLogger "\<lparr>Raw = [48, 1]\<rparr>" "[\<lparr>Raw = [48, 2]\<rparr>]"]
  by (auto simp: NewLogger_def newLockedMap_def lockedMap_get_def)

text \<open>
  Claim C4, which says that \<open>queued\<close> is incremented exactly when a task is enqueued.
  As amended: for a non-nil chain with a leaf, \<open>QueueChain\<close> increments \<open>queued\<close> by
  one whether or not it enqueues a task. A call suppressed by \<open>postCertCache\<close> also
  increments \<open>reposted\<close> and nothing else, one suppressed by \<open>postChainCache\<close> also
  increments \<open>chainReposted\<close> and nothing else, and neither enqueues; a call that
  neither cache suppresses enqueues one task and leaves both of these counters alone.
\<close>

theorem QueueChain_queued:
  "\<exists>l'. QueueChain l (Some (c # cs)) = Inr l' \<and> queued l' = queued l + 1 \<and>
     (lockedMap_get (postCertCache l) (hash c) \<longrightarrow>
        reposted l' = reposted l + 1 \<and> chainReposted l' = chainReposted l \<and>
        toPost_chan l' = toPost_chan l) \<and>
     (\<not> lockedMap_get (postCertCache l) (hash c) \<and>
      lockedMap_get (postChainCache l) (hashChain (c # cs)) \<longrightarrow>
        chainReposted l' = chainReposted l + 1 \<and> reposted l' = reposted l \<and>
        toPost_chan l' = toPost_chan l) \<and>
     (\<not> lockedMap_get (postCertCache l) (hash c) \<and>
      \<not> lockedMap_get (postChainCache l) (hashChain (c # cs)) \<longrightarrow>
        toPost_chan l' = toPost_chan l @ [\<lparr>chain = c # cs\<rparr>] \<and>
        reposted l' = reposted l \<and> chainReposted l' = chainReposted l)"
  by (simp add: QueueChain_Cons)

theorem QueueChain_queued_witness:
  "\<exists>l'. QueueChain (NewLogger\<lparr>postCertCache := lockedMap_set newLockedMap (hash \<lparr>Raw = [48, 1]\<rparr>) True\<rparr>)
          (Some [\<lparr>Raw = [48, 1]\<rparr>]) = Inr l' \<and>
     queued l' = 1 \<and> reposted l' = 1 \<and> chainReposted l' = 0 \<and> toPost_chan l' = []"
  using QueueChain_queued [of "NewLogger\<lparr>postCertCache := lockedMap_set newLockedMap (hash \<lparr>Raw = [48, 1]\<rparr>) True\<rparr>"
      "\<lparr>Raw = [48, 1]\<rparr>" "[]"]
  by (auto simp: NewLogger_def newLockedMap_def lockedMap_get_def lockedMap_set_def)

text \<open>
  Claim C4 as stated fails: a logger whose \<open>postCertCache\<close> holds the leaf suppresses
  the call, enqueues nothing, and still increments \<open>queued\<close> from 0 to 1.
\<close>

theorem QueueChain_queued_counterexample:
  "QueueChain (NewLogger\<lparr>postCertCache := lockedMap_set newLockedMap (hash \<lparr>Raw = [48, 1]\<rparr>) True\<rparr>)
     (Some [\<lparr>Raw = [48, 1]\<rparr>]) =
   Inr (NewLogger\<lparr>postCertCache := lockedMap_set newLockedMap (hash \<lparr>Raw = [48, 1]\<rparr>) True,
                   queued := 1, reposted := 1\<rparr>) \<and>
   toPost_chan (NewLogger\<lparr>postCertCache := lockedMap_set newLockedMap (hash \<lparr>Raw = [48, 1]\<rparr>) True,
                   queued := 1, reposted := 1\<rparr>) = [] \<and>
   queued NewLogger = 0"
  by (simp add: QueueChain_Cons NewLogger_def newLockedMap_def lockedMap_get_def lockedMap_set_def)

text \<open>
  Claim C9. In \<open>postChain\<close>, when \<open>AddChain\<close> is called (the leaf is not yet in
  \<open>postCertCache\<close>) and fails, exactly one \<open>FixError\<close> of type \<open>LogPostFailed\<close> with the
  chain and the error of \<open>AddChain\<close> is sent on the errors channel and \<open>postCertCache\<close>
  is unchanged; when it succeeds, \<open>postCertCache\<close> is true at the hash of the leaf and no
  error is sent.
\<close>

theorem postChain_AddChain_outcome:
  "\<not> lockedMap_get (postCertCache l) (hash c) \<Longrightarrow>
   \<exists>l'. postChain AddChain l \<lparr>chain = c # cs\<rparr> = Inr l' \<and>
     addChainCalls l' = addChainCalls l @ [map (\<lambda>cert. \<lparr>Data = Raw cert\<rparr>) (c # cs)] \<and>
     (\<forall>err. AddChain (map (\<lambda>cert. \<lparr>Data = Raw cert\<rparr>) (c # cs)) = Some err \<longrightarrow>
        errors l' = errors l @ [\<lparr>Type = LogPostFailed, Chain = c # cs, URL = [],
                                 Error = ''add-chain failed: '' @ err\<rparr>] \<and>
        postCertCache l' = postCertCache l \<and>
        \<not> lockedMap_get (postCertCache l') (hash c)) \<and>
     (AddChain (map (\<lambda>cert. \<lparr>Data = Raw cert\<rparr>) (c # cs)) = None \<longrightarrow>
        lockedMap_get (postCertCache l') (hash c) \<and> errors l' = errors l)"
  by (auto simp: postChain_def Let_def lockedMap_set_def lockedMap_get_def split: option.splits)

theorem postChain_AddChain_outcome_witness:
  "\<not> lockedMap_get (postCertCache NewLogger) (hash \<lparr>Raw = [48, 1]\<rparr>) \<and>
   (\<exists>l'. postChain (\<lambda>d. Some ''rejected'') NewLogger \<lparr>chain = [\<lparr>Raw = [48, 1]\<rparr>]\<rparr> = Inr l' \<and>
      errors l' = [\<lparr>Type = LogPostFailed, Chain = [\<lparr>Raw = [48, 1]\<rparr>], URL = [],
                     Error = ''add-chain failed: rejected''\<rparr>] \<and>
      postCertCache l' = postCertCache NewLogger)"
proof -
  have h: "\<not> lockedMap_get (postCertCache NewLogger) (hash \<lparr>Raw = [48, 1]\<rparr>)"
    by (simp add: NewLogger_def newLockedMap_def lockedMap_get_def)
  show ?thesis
    using h postChain_AddChain_outcome [OF h, of "\<lambda>d. Some ''rejected''" "[]"]
    by (auto simp: NewLogger_def)
qed

lemma cert_rebuild: "\<lparr>Raw = Raw x\<rparr> = (x :: cert)"
  by (cases x) simp

lemma hashChain_der_map:
  "hashChain_der (map (\<lambda>cert. \<lparr>Data = Raw cert\<rparr>) cs) = hashChain cs"
  by (simp add: hashChain_der_def comp_def cert_rebuild)

lemma lockedMap_get_set:
  "lockedMap_get (lockedMap_set m k True) k' \<longleftrightarrow> k' = k \<or> lockedMap_get m k'"
  by (simp add: lockedMap_get_def lockedMap_set_def)

lemma single_thread: "length (qs @ t # qs') \<le> 1 \<Longrightarrow> qs = [] \<and> qs' = []"
  by (cases qs) auto

lemma running_once_inv: "running True l qs ps \<Longrightarrow> once_inv l qs"
proof (induction rule: running.induct)
  case start
  show ?case by (simp add: once_inv_def tried_def NewLogger_def)
next
  case (enter l qs ps c cs)
  then show ?case by (simp add: once_inv_def tried_def)
next
  case (cert_hit l qs c cs qs' ps)
  then show ?case by (auto simp: once_inv_def tried_def)
next
  case (cert_miss l qs c cs qs' ps)
  then show ?case by (auto simp: once_inv_def tried_def dest!: single_thread)
next
  case (chain_hit l qs certs qs' ps)
  then show ?case by (auto simp: once_inv_def tried_def)
next
  case (chain_miss l qs certs qs' ps)
  then show ?case by (auto simp: once_inv_def tried_def dest!: single_thread)
next
  case (chain_set l qs certs qs' ps)
  from chain_set.IH have e: "qs = []" "qs' = []"
    by (auto simp: once_inv_def dest!: single_thread)
  from chain_set.IH e have n: "\<not> lockedMap_get (postChainCache l) (hashChain certs)"
    by (simp add: once_inv_def)
  with chain_set.IH have "hashChain certs \<notin> set (tried l)"
    by (auto simp: once_inv_def)
  with chain_set.IH e show ?case
    by (simp add: once_inv_def tried_def lockedMap_get_set)
next
  case (send l qs certs qs' ps)
  from send.IH have e: "qs = []" "qs' = []"
    by (auto simp: once_inv_def dest!: single_thread)
  have t: "tried (postToLog l \<lparr>chain = certs\<rparr>) = tried l @ [hashChain certs]"
    by (simp add: tried_def postToLog_def)
  from send.IH e show ?case
    by (simp add: once_inv_def t) (simp add: postToLog_def)
next
  case (receive_hit l qs ps p rest c cs)
  let ?A = "map hashChain_der (addChainCalls l)"
  let ?R = "map (\<lambda>p. hashChain (chain p)) rest"
  have 1: "tried l = ?A @ hashChain (chain p) # ?R"
    using receive_hit.hyps by (simp add: tried_def)
  have 2: "tried (l\<lparr>toPost_chan := rest, reposted := reposted l + 1, wg := wg l - 1\<rparr>) = ?A @ ?R"
    by (simp add: tried_def)
  from receive_hit.IH show ?case
    unfolding once_inv_def 1 2 by auto
next
  case (receive_miss l qs ps p rest c cs)
  let ?A = "map hashChain_der (addChainCalls l)"
  let ?R = "map (\<lambda>p. hashChain (chain p)) rest"
  let ?l = "l\<lparr>toPost_chan := rest, active := active l + 1, posted := posted l + 1,
          addChainCalls := addChainCalls l @ [map (\<lambda>cert. \<lparr>Data = Raw cert\<rparr>) (chain p)]\<rparr>"
  have 1: "tried l = ?A @ hashChain (chain p) # ?R"
    using receive_miss.hyps by (simp add: tried_def)
  have 2: "tried ?l = (?A @ [hashChain (chain p)]) @ ?R"
    by (simp add: tried_def hashChain_der_map)
  from receive_miss.IH show ?case
    unfolding once_inv_def 1 2 by auto
next
  case (answer_error l qs ps p ps' err)
  then show ?case by (simp add: once_inv_def tried_def)
next
  case (answer_ok l qs ps p ps' c cs)
  then show ?case by (simp add: once_inv_def tried_def)
qed

text \<open>
  The functions \<open>QueueChain\<close> and \<open>postServer\<close> above are runs of these steps: a call
  of \<open>QueueChain\<close> that no other call overlaps, and one iteration of a worker.
\<close>

lemma running_QueueChain:
  assumes r: "running serial l [] ps" and q: "QueueChain l (Some (c # cs)) = Inr l'"
  shows "running serial l' [] ps"
proof -
  let ?l1 = "l\<lparr>queued := queued l + 1\<rparr>"
  have 1: "running serial ?l1 ([] @ Entered (c # cs) # []) ps"
    using running.enter [OF r, of c cs] by simp
  show ?thesis
  proof (cases "lockedMap_get (postCertCache l) (hash c)")
    case True
    with running.cert_hit [OF 1] q show ?thesis
      by (simp add: QueueChain_Cons)
  next
    case False
    with running.cert_miss [OF 1] have 2: "running serial ?l1 ([] @ CertMiss (c # cs) # []) ps"
      by simp
    show ?thesis
    proof (cases "lockedMap_get (postChainCache l) (hashChain (c # cs))")
      case True
      with running.chain_hit [OF 2] q False show ?thesis
        by (simp add: QueueChain_Cons)
    next
      case nc: False
      with running.chain_miss [OF 2] have 3: "running serial ?l1 ([] @ ChainMiss (c # cs) # []) ps"
        by simp
      from running.send [OF running.chain_set [OF 3]] q False nc show ?thesis
        by (simp add: QueueChain_Cons postToLog_def)
    qed
  qed
qed

lemma running_postServer:
  assumes r: "running serial l qs ps" and s: "postServer AddChain l = Some (Inr l')"
  shows "running serial l' qs ps"
proof -
  from s obtain p rest where t: "toPost_chan l = p # rest"
    by (cases "toPost_chan l") (auto simp: postServer_def)
  from s t obtain c cs where ch: "chain p = c # cs"
    by (cases "chain p") (auto simp: postServer_def postChain_def)
  have w: "x + 1 + NOT 0 = x" for x :: u32
    by (simp add: not_eq_complement)
  show ?thesis
  proof (cases "lockedMap_get (postCertCache l) (hash c)")
    case True
    from running.receive_hit [OF r t ch True] s t ch True show ?thesis
      by (simp add: postServer_def postChain_def w)
  next
    case False
    let ?d = "map (\<lambda>cert. \<lparr>Data = Raw cert\<rparr>) (chain p)"
    from running.receive_miss [OF r t ch False]
    have 1: "running serial
       (l\<lparr>toPost_chan := rest, active := active l + 1, posted := posted l + 1,
          addChainCalls := addChainCalls l @ [?d]\<rparr>) qs (ps @ p # [])"
      by simp
    show ?thesis
    proof (cases "AddChain ?d")
      case None
      with running.answer_ok [OF 1 ch] s t ch False show ?thesis
        by (simp add: postServer_def postChain_def Let_def)
    next
      case (Some err)
      with running.answer_error [OF 1, of err] s t ch False show ?thesis
        by (simp add: postServer_def postChain_def Let_def)
    qed
  qed
qed

text \<open>
  Claim C2, as amended. When the calls of \<open>QueueChain\<close> do not overlap (each returns
  before the next starts), whatever the \<open>postServer\<close> workers do in between and whatever
  the log answers, the calls made to \<open>AddChain\<close> have pairwise different \<open>hashChain\<close>
  values: once \<open>QueueChain\<close> has recorded the hash of a chain in \<open>postChainCache\<close>, no
  later \<open>QueueChain\<close> with a chain of the same hash leads to another call.
\<close>

theorem AddChain_once_per_hashChain:
  "running True l qs ps \<Longrightarrow> distinct (map hashChain_der (addChainCalls l))"
  using running_once_inv [of l qs ps] by (simp add: once_inv_def tried_def)


theorem AddChain_once_per_hashChain_witness:
  "running True
     (projr (QueueChain (projr (the (postServer (\<lambda>d. Some ''rejected'')
        (projr (QueueChain NewLogger (Some [\<lparr>Raw = [48, 1]\<rparr>]))))))
        (Some [\<lparr>Raw = [48, 1]\<rparr>]))) [] [] \<and>
   addChainCalls
     (projr (QueueChain (projr (the (postServer (\<lambda>d. Some ''rejected'')
        (projr (QueueChain NewLogger (Some [\<lparr>Raw = [48, 1]\<rparr>]))))))
        (Some [\<lparr>Raw = [48, 1]\<rparr>]))) = [[\<lparr>Data = [48, 1]\<rparr>]] \<and>
   distinct (map hashChain_der (addChainCalls
     (projr (QueueChain (projr (the (postServer (\<lambda>d. Some ''rejected'')
        (projr (QueueChain NewLogger (Some [\<lparr>Raw = [48, 1]\<rparr>]))))))
        (Some [\<lparr>Raw = [48, 1]\<rparr>])))))"
proof -
  let ?c = "\<lparr>Raw = [48, 1 :: byte]\<rparr>"
  let ?A = "\<lambda>d :: ASN1Cert list. Some ''rejected''"
  let ?l1 = "projr (QueueChain NewLogger (Some [?c]))"
  let ?l2 = "projr (the (postServer ?A ?l1))"
  let ?l3 = "projr (QueueChain ?l2 (Some [?c]))"
  have 1: "QueueChain NewLogger (Some [?c]) = Inr ?l1"
    by (simp add: QueueChain_Cons)
  have 2: "postServer ?A ?l1 = Some (Inr ?l2)"
    by (simp add: QueueChain_Cons postServer_def postChain_def Let_def NewLogger_def
          newLockedMap_def lockedMap_get_def)
  have 3: "QueueChain ?l2 (Some [?c]) = Inr ?l3"
    by (simp add: QueueChain_Cons)
  have r: "running True ?l3 [] []"
    using running_QueueChain [OF running_postServer [OF running_QueueChain [OF running.start 1] 2] 3] .
  have c: "addChainCalls ?l3 = [[\<lparr>Data = [48, 1]\<rparr>]]"
    by (simp add: QueueChain_Cons postServer_def postChain_def Let_def NewLogger_def
          newLockedMap_def lockedMap_get_def lockedMap_set_def)
  show ?thesis
    using r c AddChain_once_per_hashChain [OF r] by blast
qed


text \<open>
  Claim C2 as stated fails for calls that overlap: two calls of \<open>QueueChain\<close> with the
  same chain both read \<open>postChainCache\<close> before either writes it, both enqueue the
  chain, and two workers call \<open>AddChain\<close> with it.
\<close>

theorem AddChain_once_per_hashChain_counterexample:
  "running False
     (NewLogger\<lparr>queued := 2, wg := 2, active := 2, posted := 2,
        postChainCache := lockedMap_set newLockedMap (hashChain [\<lparr>Raw = [48, 1]\<rparr>]) True,
        addChainCalls := [[\<lparr>Data = [48, 1]\<rparr>], [\<lparr>Data = [48, 1]\<rparr>]]\<rparr>)
     [] [\<lparr>chain = [\<lparr>Raw = [48, 1]\<rparr>]\<rparr>, \<lparr>chain = [\<lparr>Raw = [48, 1]\<rparr>]\<rparr>] \<and>
   \<not> distinct (map hashChain_der [[\<lparr>Data = [48, 1]\<rparr>], [\<lparr>Data = [48, 1]\<rparr>]])"
proof -
  let ?c = "\<lparr>Raw = [48, 1 :: byte]\<rparr>"
  let ?h = "hashChain [?c]"
  let ?p = "\<lparr>chain = [?c]\<rparr>"
  let ?d = "[\<lparr>Data = [48, 1 :: byte]\<rparr>]"
  let ?m = "lockedMap_set newLockedMap ?h True"
  note defs = NewLogger_def newLockedMap_def lockedMap_get_def lockedMap_set_def postToLog_def
  have 1: "running False (NewLogger\<lparr>queued := 1\<rparr>) [Entered [?c]] []"
    using running.enter [OF running.start, of False ?c "[]"] by (simp add: defs)
  have 2: "running False (NewLogger\<lparr>queued := 2\<rparr>) [Entered [?c], Entered [?c]] []"
    using running.enter [OF 1, of ?c "[]"] by (simp add: defs)
  have 3: "running False (NewLogger\<lparr>queued := 2\<rparr>) [CertMiss [?c], Entered [?c]] []"
    using running.cert_miss [of False _ "[]" ?c "[]" "[Entered [?c]]" "[]"] 2 by (simp add: defs)
  have 4: "running False (NewLogger\<lparr>queued := 2\<rparr>) [CertMiss [?c], CertMiss [?c]] []"
    using running.cert_miss [of False _ "[CertMiss [?c]]" ?c "[]" "[]" "[]"] 3 by (simp add: defs)
  have 5: "running False (NewLogger\<lparr>queued := 2\<rparr>) [ChainMiss [?c], CertMiss [?c]] []"
    using running.chain_miss [of False _ "[]" "[?c]" "[CertMiss [?c]]" "[]"] 4 by (simp add: defs)
  have 6: "running False (NewLogger\<lparr>queued := 2\<rparr>) [ChainMiss [?c], ChainMiss [?c]] []"
    using running.chain_miss [of False _ "[ChainMiss [?c]]" "[?c]" "[]" "[]"] 5 by (simp add: defs)
  have a6: "running False (NewLogger\<lparr>queued := 2\<rparr>) ([] @ ChainMiss [?c] # [ChainMiss [?c]]) []"
    using 6 by simp
  have 7: "running False (NewLogger\<lparr>queued := 2, postChainCache := ?m\<rparr>)
      [Cached [?c], ChainMiss [?c]] []"
    using running.chain_set [OF a6] by (simp add: defs)
  then have a7: "running False (NewLogger\<lparr>queued := 2, postChainCache := ?m\<rparr>)
      ([Cached [?c]] @ ChainMiss [?c] # []) []"
    by simp
  have 8: "running False (NewLogger\<lparr>queued := 2, postChainCache := ?m\<rparr>)
      [Cached [?c], Cached [?c]] []"
    using running.chain_set [OF a7] by (simp add: defs)
  then have a8: "running False (NewLogger\<lparr>queued := 2, postChainCache := ?m\<rparr>)
      ([] @ Cached [?c] # [Cached [?c]]) []"
    by simp
  have 9: "running False (NewLogger\<lparr>queued := 2, postChainCache := ?m, wg := 1, toPost_chan := [?p]\<rparr>)
      [Cached [?c]] []"
    using running.send [OF a8] by (simp add: defs)
  then have a9: "running False (NewLogger\<lparr>queued := 2, postChainCache := ?m, wg := 1, toPost_chan := [?p]\<rparr>)
      ([] @ Cached [?c] # []) []"
    by simp
  have 10: "running False (NewLogger\<lparr>queued := 2, postChainCache := ?m, wg := 2, toPost_chan := [?p, ?p]\<rparr>)
      [] []"
    using running.send [OF a9] by (simp add: defs)
  have 11: "running False (NewLogger\<lparr>queued := 2, postChainCache := ?m, wg := 2, toPost_chan := [?p],
       active := 1, posted := 1, addChainCalls := [?d]\<rparr>) [] [?p]"
    using running.receive_miss [OF 10, of ?p "[?p]" ?c "[]"] by (simp add: defs)
  have 12: "running False (NewLogger\<lparr>queued := 2, postChainCache := ?m, wg := 2, toPost_chan := [],
       active := 2, posted := 2, addChainCalls := [?d, ?d]\<rparr>) [] [?p, ?p]"
    using running.receive_miss [OF 11, of ?p "[]" ?c "[]"] by (simp add: defs)
  from 12 show ?thesis
    by (simp add: defs)
qed


section \<open>Properties of the Fetcher\<close>

lemma wrap64_id: "in_int64 x \<Longrightarrow> wrap64 x = x"
  by (simp add: in_int64_def wrap64_def)

lemma wrap64_shift: "in_int64 x \<Longrightarrow> wrap64 (x - 2 ^ 64) = x"
proof -
  assume "in_int64 x"
  have "(x - 2 ^ 64 + 2 ^ 63) mod 2 ^ 64 = (x + 2 ^ 63 + - 1 * 2 ^ 64) mod (2 ^ 64 :: int)"
    by (simp add: algebra_simps)
  also have "\<dots> = (x + 2 ^ 63) mod 2 ^ 64"
    by (rule mod_mult_self1)
  finally show ?thesis
    using \<open>in_int64 x\<close> by (simp add: wrap64_def in_int64_def)
qed

lemma wrap64_shift_up: "in_int64 x \<Longrightarrow> wrap64 (x + 2 ^ 64) = x"
proof -
  assume "in_int64 x"
  have "(x + 2 ^ 64 + 2 ^ 63) mod 2 ^ 64 = (x + 2 ^ 63 + 1 * 2 ^ 64) mod (2 ^ 64 :: int)"
    by (simp add: algebra_simps)
  also have "\<dots> = (x + 2 ^ 63) mod 2 ^ 64"
    by (rule mod_mult_self1)
  finally show ?thesis
    using \<open>in_int64 x\<close> by (simp add: wrap64_def in_int64_def)
qed

lemma genRanges_step:
  assumes "in_int64 start" "in_int64 stop" "start < stop" "1 \<le> batch" "in_int64 batch"
  defines "be \<equiv> add64 start (min64 (sub64 stop start) batch)"
  shows "start < be" "be \<le> stop" "sub64 be 1 = be - 1"
    "stop - start < 2 ^ 63 \<Longrightarrow> be - start \<le> batch"
proof -
  have be: "start < be \<and> be \<le> stop \<and> (stop - start < 2 ^ 63 \<longrightarrow> be - start \<le> batch)"
  proof (cases "stop - start < 2 ^ 63")
    case True
    then have "in_int64 (stop - start)"
      using assms(3) by (simp add: in_int64_def)
    then have s: "sub64 stop start = stop - start"
      by (simp add: sub64_def wrap64_id)
    have "in_int64 (start + min64 (stop - start) batch)"
      using assms(1-5) by (auto simp: in_int64_def min64_def)
    then have "be = start + min64 (stop - start) batch"
      by (simp add: be_def add64_def s wrap64_id)
    then show ?thesis
      using assms(3,4) by (auto simp: min64_def)
  next
    case False
    let ?y = "stop - start - 2 ^ 64"
    have y: "in_int64 ?y" "?y < 0"
      using False assms(1,2) by (auto simp: in_int64_def)
    have "sub64 stop start = wrap64 (?y + 2 ^ 64)"
      by (simp add: sub64_def)
    also have "\<dots> = ?y"
      using y(1) by (rule wrap64_shift_up)
    finally have s: "sub64 stop start = ?y" .
    have "be = wrap64 (stop - 2 ^ 64)"
      using y(2) assms(4) by (simp add: be_def add64_def s min64_def)
    then have "be = stop"
      using wrap64_shift [OF assms(2)] by simp
    with False assms(3) show ?thesis by simp
  qed
  show "start < be" "be \<le> stop" "stop - start < 2 ^ 63 \<Longrightarrow> be - start \<le> batch"
    using be by auto
  have "in_int64 (be - 1)"
    using be assms(1,2) by (auto simp: in_int64_def)
  then show "sub64 be 1 = be - 1"
    by (simp add: sub64_def wrap64_id)
qed


lemma genRanges_loop_chained:
  assumes b: "1 \<le> batch" "in_int64 batch" and e: "in_int64 stop"
  shows "genRanges_loop fuel cancelled sths False batch i k start stop = Some rs \<Longrightarrow>
    \<forall>i. \<not> cancelled i \<Longrightarrow> in_int64 start \<Longrightarrow> start \<le> stop \<Longrightarrow>
    chained start rs stop \<and>
    (stop - start < 2 ^ 63 \<longrightarrow> (\<forall>r \<in> set rs. range_end r - range_start r + 1 \<le> batch))"
proof (induction fuel arbitrary: start i rs)
  case 0
  then show ?case by (simp split: if_splits)
next
  case (Suc fuel)
  show ?case
  proof (cases "start < stop")
    case False
    with Suc.prems show ?thesis by simp
  next
    case True
    let ?be = "add64 start (min64 (sub64 stop start) batch)"
    note st = genRanges_step [OF Suc.prems(3) e True b]
    let ?r = "\<lparr>range_start = start, range_end = ?be - 1\<rparr>"
    from Suc.prems(1) True st(3) spec [OF Suc.prems(2), of i] obtain rs' where rs':
      "genRanges_loop fuel cancelled sths False batch (Suc i) k ?be stop = Some rs'"
      "rs = ?r # rs'"
      by (auto simp: Let_def)
    have "in_int64 ?be"
      using st(1,2) Suc.prems(3) e by (auto simp: in_int64_def)
    then have IH: "chained ?be rs' stop"
      "stop - ?be < 2 ^ 63 \<longrightarrow> (\<forall>r \<in> set rs'. range_end r - range_start r + 1 \<le> batch)"
      using Suc.IH [OF rs'(1) Suc.prems(2)] st(2) by auto
    show ?thesis
      using st(1,4) IH by (auto simp: rs'(2))
  qed
qed

lemma genRanges_loop_returns:
  assumes b: "1 \<le> batch" "in_int64 batch" and e: "in_int64 stop" and nc: "\<forall>i. \<not> cancelled i"
  shows "in_int64 start \<Longrightarrow> nat (stop - start) \<le> fuel \<Longrightarrow>
    \<exists>rs. genRanges_loop fuel cancelled sths False batch i k start stop = Some rs"
proof (induction fuel arbitrary: start i)
  case 0
  then show ?case by simp
next
  case (Suc fuel)
  show ?case
  proof (cases "start < stop")
    case False
    then show ?thesis by simp
  next
    case True
    let ?be = "add64 start (min64 (sub64 stop start) batch)"
    note st = genRanges_step [OF Suc.prems(1) e True b]
    have "in_int64 ?be"
      using st(1,2) Suc.prems(1) e by (auto simp: in_int64_def)
    moreover have "nat (stop - ?be) \<le> fuel"
      using st(1) Suc.prems(2) by linarith
    ultimately obtain rs where
      "genRanges_loop fuel cancelled sths False batch (Suc i) k ?be stop = Some rs"
      using Suc.IH [of ?be "Suc i"] by blast
    then show ?thesis
      using True spec [OF nc, of i] by (simp add: Let_def)
  qed
qed

lemma chained_le: "chained s rs e \<Longrightarrow> s \<le> e"
proof (induction rs arbitrary: s)
  case Nil
  then show ?case by simp
next
  case (Cons r rs)
  from Cons.prems have "s \<le> range_end r" "chained (range_end r + 1) rs e"
    by auto
  with Cons.IH [of "range_end r + 1"] show ?case by simp
qed

lemma chained_union:
  "chained s rs e \<Longrightarrow> (\<Union>r \<in> set rs. {range_start r .. range_end r}) = {s ..< e}"
proof (induction rs arbitrary: s)
  case Nil
  then show ?case by simp
next
  case (Cons r rs)
  then have "(\<Union>r \<in> set rs. {range_start r .. range_end r}) = {range_end r + 1 ..< e}"
    and "range_end r + 1 \<le> e" "range_start r = s" "s \<le> range_end r"
    by (auto dest: chained_le)
  then show ?case by auto
qed

lemma chained_next:
  "chained s rs e \<Longrightarrow> Suc j < length rs \<Longrightarrow>
     range_start (rs ! Suc j) = range_end (rs ! j) + 1"
proof (induction rs arbitrary: s j)
  case Nil
  then show ?case by simp
next
  case (Cons r rs)
  show ?case
  proof (cases j)
    case 0
    with Cons.prems show ?thesis by (cases rs) auto
  next
    case (Suc j')
    with Cons show ?thesis by auto
  qed
qed

lemma chained_nonempty: "chained s rs e \<Longrightarrow> \<forall>r \<in> set rs. range_start r \<le> range_end r"
  by (induction rs arbitrary: s) auto

lemma chained_hd: "chained s rs e \<Longrightarrow> rs \<noteq> [] \<Longrightarrow> range_start (hd rs) = s"
  by (cases rs) auto

text \<open>
  Claim C6, as amended. With \<open>Continuous = false\<close>, \<open>BatchSize \<ge> 1\<close>,
  \<open>StartIndex \<le> EndIndex\<close> and \<open>EndIndex - StartIndex < 2^63\<close> (so that the
  subtraction \<open>end - start\<close> does not wrap), and a context that is not cancelled, the
  generator returns, and the ranges it sent are contiguous and do not overlap: the first
  starts at \<open>StartIndex\<close>, every range has \<open>start \<le> end\<close> and at most \<open>BatchSize\<close>
  indices, each next range starts at the end of the previous one plus one, and the union
  of the intervals \<open>[start, end]\<close> is \<open>[StartIndex, EndIndex)\<close>.
\<close>

theorem genRanges_contiguous:
  assumes "\<not> Continuous opts" "1 \<le> BatchSize opts" "in_int64 (BatchSize opts)"
    "in_int64 (StartIndex opts)" "in_int64 (EndIndex opts)"
    "StartIndex opts \<le> EndIndex opts" "EndIndex opts - StartIndex opts < 2 ^ 63"
    "\<forall>i. \<not> cancelled i"
  shows "(\<exists>fuel rs. genRanges fuel cancelled sths opts = Some rs) \<and>
    (\<forall>fuel rs. genRanges fuel cancelled sths opts = Some rs \<longrightarrow>
       (rs \<noteq> [] \<longrightarrow> range_start (hd rs) = StartIndex opts) \<and>
       (\<forall>r \<in> set rs. range_start r \<le> range_end r \<and>
                       range_end r - range_start r + 1 \<le> BatchSize opts) \<and>
       (\<forall>j. Suc j < length rs \<longrightarrow> range_start (rs ! Suc j) = range_end (rs ! j) + 1) \<and>
       (\<Union>r \<in> set rs. {range_start r .. range_end r}) = {StartIndex opts ..< EndIndex opts})"
proof (intro conjI allI impI)
  show "\<exists>fuel rs. genRanges fuel cancelled sths opts = Some rs"
    using genRanges_loop_returns [OF assms(2,3,5,8,4) order_refl, of sths 0 0] assms(1)
    unfolding genRanges_def by auto
next
  fix fuel rs
  assume "genRanges fuel cancelled sths opts = Some rs"
  then have "genRanges_loop fuel cancelled sths False (BatchSize opts) 0 0
      (StartIndex opts) (EndIndex opts) = Some rs"
    using assms(1) by (simp add: genRanges_def)
  from genRanges_loop_chained [OF assms(2,3,5) this assms(8,4,6)] assms(7)
  have c: "chained (StartIndex opts) rs (EndIndex opts)"
    and s: "\<forall>r \<in> set rs. range_end r - range_start r + 1 \<le> BatchSize opts"
    by auto
  show "rs \<noteq> [] \<Longrightarrow> range_start (hd rs) = StartIndex opts"
    using chained_hd [OF c] .
  show "\<forall>r \<in> set rs. range_start r \<le> range_end r \<and>
                       range_end r - range_start r + 1 \<le> BatchSize opts"
    using chained_nonempty [OF c] s by blast
  show "(\<Union>r \<in> set rs. {range_start r .. range_end r}) = {StartIndex opts ..< EndIndex opts}"
    using chained_union [OF c] .
  fix j
  assume "Suc j < length rs"
  then show "range_start (rs ! Suc j) = range_end (rs ! j) + 1"
    using chained_next [OF c] by blast
qed

theorem genRanges_contiguous_witness:
  "\<exists>fuel rs. genRanges fuel (\<lambda>i. False) (\<lambda>k. None)
       \<lparr>BatchSize = 2, ParallelFetch = 1, StartIndex = 5, EndIndex = 10, Continuous = False\<rparr> = Some rs \<and>
     (\<Union>r \<in> set rs. {range_start r .. range_end r}) = {5 ..< 10}"
proof -
  let ?o = "\<lparr>BatchSize = 2, ParallelFetch = 1, StartIndex = 5, EndIndex = 10, Continuous = False\<rparr>"
  have "(\<exists>fuel rs. genRanges fuel (\<lambda>i. False) (\<lambda>k. None) ?o = Some rs) \<and>
    (\<forall>fuel rs. genRanges fuel (\<lambda>i. False) (\<lambda>k. None) ?o = Some rs \<longrightarrow>
       (rs \<noteq> [] \<longrightarrow> range_start (hd rs) = StartIndex ?o) \<and>
       (\<forall>r \<in> set rs. range_start r \<le> range_end r \<and>
                       range_end r - range_start r + 1 \<le> BatchSize ?o) \<and>
       (\<forall>j. Suc j < length rs \<longrightarrow> range_start (rs ! Suc j) = range_end (rs ! j) + 1) \<and>
       (\<Union>r \<in> set rs. {range_start r .. range_end r}) = {StartIndex ?o ..< EndIndex ?o})"
    by (rule genRanges_contiguous) (simp_all add: in_int64_def)
  then show ?thesis by fastforce
qed

text \<open>
  Claim C6 as stated fails where \<open>end - start\<close> wraps: from \<open>StartIndex = -2^63\<close> to
  \<open>EndIndex = 2^63 - 1\<close> with \<open>BatchSize = 1\<close> the generator sends one range of
  \<open>2^64 - 1\<close> indices.
\<close>

theorem genRanges_contiguous_counterexample:
  "genRanges 1 (\<lambda>i. False) (\<lambda>k. None)
     \<lparr>BatchSize = 1, ParallelFetch = 1, StartIndex = - 9223372036854775808,
      EndIndex = 9223372036854775807, Continuous = False\<rparr> =
   Some [\<lparr>range_start = - 9223372036854775808, range_end = 9223372036854775806\<rparr>] \<and>
   \<not> (9223372036854775806 - (- 9223372036854775808) + 1 \<le> (1 :: int))"
  by (simp add: genRanges_def add64_def sub64_def min64_def wrap64_def Let_def)

lemma tiled_le: "tiled s bs e \<Longrightarrow> s \<le> e"
proof (induction bs arbitrary: s)
  case Nil
  then show ?case by simp
next
  case (Cons b bs)
  from Cons.prems have "tiled (s + int (length (Entries b))) bs e"
    by auto
  with Cons.IH [of "s + int (length (Entries b))"] show ?case by simp
qed

lemma tiled_append: "tiled s bs m \<Longrightarrow> tiled m bs' e \<Longrightarrow> tiled s (bs @ bs') e"
  by (induction bs arbitrary: s) auto

lemma tiled_union: "tiled s bs e \<Longrightarrow> (\<Union>b \<in> set bs. span b) = {s ..< e}"
proof (induction bs arbitrary: s)
  case Nil
  then show ?case by simp
next
  case (Cons b bs)
  let ?m = "s + int (length (Entries b))"
  from Cons.prems have t: "tiled ?m bs e" and b: "Start b = s"
    by auto
  have "(\<Union>b \<in> set bs. span b) = {?m ..< e}"
    using Cons.IH [OF t] .
  moreover have "?m \<le> e" using tiled_le [OF t] .
  moreover have "span b = {s ..< ?m}" using b by (simp add: span_def)
  ultimately show ?case by auto
qed

lemma tiled_disjoint:
  "tiled s bs e \<Longrightarrow> i < j \<Longrightarrow> j < length bs \<Longrightarrow> span (bs ! i) \<inter> span (bs ! j) = {}"
proof (induction bs arbitrary: s i j)
  case Nil
  then show ?case by simp
next
  case (Cons b bs)
  let ?m = "s + int (length (Entries b))"
  from Cons.prems have t: "tiled ?m bs e" and b: "Start b = s"
    by auto
  obtain j' where j: "j = Suc j'" "j' < length bs"
    using Cons.prems(2,3) by (cases j) auto
  show ?case
  proof (cases i)
    case 0
    have "span (bs ! j') \<subseteq> {?m ..< e}"
      using tiled_union [OF t] j(2) by (metis UN_upper nth_mem)
    moreover have "span b = {s ..< ?m}" using b by (simp add: span_def)
    ultimately show ?thesis using 0 j by auto
  next
    case (Suc i')
    then show ?thesis
      using Cons.IH [OF t, of i' j'] Cons.prems(2) j by simp
  qed
qed

lemma fetch_range_tiled:
  assumes ok: "\<forall>k s e es. s \<le> e \<and> client k s e = Got es \<longrightarrow>
        1 \<le> length es \<and> int (length es) \<le> e - s + 1"
    and e: "in_int64 (stop + 1)"
  shows "fetch_range fuel ctxErr client k start stop = (bs, k', Finished) \<Longrightarrow>
    in_int64 start \<Longrightarrow> start \<le> stop + 1 \<Longrightarrow> tiled start bs (stop + 1)"
proof (induction fuel arbitrary: k start bs)
  case 0
  then show ?case by (auto split: if_splits)
next
  case (Suc fuel)
  show ?case
  proof (cases "start \<le> stop")
    case False
    with Suc.prems show ?thesis by auto
  next
    case True
    with Suc.prems(1) have nc: "\<not> ctxErr k" by (auto split: if_splits)
    show ?thesis
    proof (cases "client k start stop")
      case Failed
      with Suc.prems(1) True nc have "fetch_range fuel ctxErr client (Suc k) start stop = (bs, k', Finished)"
        by simp
      from Suc.IH [OF this Suc.prems(2,3)] show ?thesis .
    next
      case (Got es)
      with ok True have len: "1 \<le> length es" "int (length es) \<le> stop - start + 1"
        by auto
      let ?n = "start + int (length es)"
      have n: "in_int64 ?n" "?n \<le> stop + 1"
        using len e Suc.prems(2) by (auto simp: in_int64_def)
      then have a: "add64 start (int (length es)) = ?n"
        by (simp add: add64_def wrap64_id)
      from Suc.prems(1) True nc Got a obtain bs' where bs':
        "fetch_range fuel ctxErr client (Suc k) ?n stop = (bs', k', Finished)"
        "bs = \<lparr>Start = start, Entries = es\<rparr> # bs'"
        by (auto split: prod.splits)
      from Suc.IH [OF bs'(1) n] len(1) show ?thesis
        by (auto simp: bs'(2))
    qed
  qed
qed

lemma fetch_range_returns:
  assumes ok: "\<forall>k s e es. s \<le> e \<and> client k s e = Got es \<longrightarrow>
        1 \<le> length es \<and> int (length es) \<le> e - s + 1"
    and ev: "\<forall>k s e. N \<le> k \<longrightarrow> client k s e \<noteq> Failed"
    and nc: "\<forall>k. \<not> ctxErr k"
    and e: "in_int64 (stop + 1)"
  shows "in_int64 start \<Longrightarrow> start \<le> stop + 1 \<Longrightarrow> (N - k) + nat (stop + 1 - start) \<le> fuel \<Longrightarrow>
    \<exists>bs k'. fetch_range fuel ctxErr client k start stop = (bs, k', Finished)"
proof (induction fuel arbitrary: k start)
  case 0
  then show ?case by auto
next
  case (Suc fuel)
  show ?case
  proof (cases "start \<le> stop")
    case False
    then show ?thesis by simp
  next
    case True
    note nck = spec [OF nc, of k]
    show ?thesis
    proof (cases "client k start stop")
      case Failed
      with ev have "k < N" by (meson not_le)
      then have "(N - Suc k) + nat (stop + 1 - start) \<le> fuel"
        using Suc.prems(3) by linarith
      from Suc.IH [OF Suc.prems(1,2) this] show ?thesis
        using True nck Failed by simp
    next
      case (Got es)
      with ok True have len: "1 \<le> length es" "int (length es) \<le> stop - start + 1"
        by auto
      let ?n = "start + int (length es)"
      have n: "in_int64 ?n" "?n \<le> stop + 1"
        using len e Suc.prems(1) by (auto simp: in_int64_def)
      then have a: "add64 start (int (length es)) = ?n"
        by (simp add: add64_def wrap64_id)
      have "(N - Suc k) + nat (stop + 1 - ?n) \<le> fuel"
        using Suc.prems(3) len(1) True by linarith
      from Suc.IH [OF n this] show ?thesis
        using True nck Got a by (auto split: prod.splits)
    qed
  qed
qed


lemma runWorker_tiled:
  assumes ok: "\<forall>k s e es. s \<le> e \<and> client k s e = Got es \<longrightarrow>
        1 \<le> length es \<and> int (length es) \<le> e - s + 1"
    and E: "in_int64 E"
  shows "runWorker fuel ctxErr client k rs = (bs, k', Finished) \<Longrightarrow>
    chained S rs E \<Longrightarrow> in_int64 S \<Longrightarrow> tiled S bs E"
proof (induction rs arbitrary: S k bs)
  case Nil
  then show ?case by simp
next
  case (Cons r rs)
  obtain b1 k1 st1 where f: "fetch_range fuel ctxErr client k (range_start r) (range_end r) = (b1, k1, st1)"
    by (cases "fetch_range fuel ctxErr client k (range_start r) (range_end r)") auto
  obtain b2 k2 st2 where w: "runWorker fuel ctxErr client k1 rs = (b2, k2, st2)"
    by (cases "runWorker fuel ctxErr client k1 rs") auto
  from Cons.prems(1) f w have st: "st1 = Finished" "st2 = Finished" "bs = b1 @ b2" "k2 = k'"
    by (cases st1; simp)+
  from Cons.prems(2) have c: "range_start r = S" "S \<le> range_end r" "chained (range_end r + 1) rs E"
    by auto
  have le: "range_end r + 1 \<le> E" using chained_le [OF c(3)] .
  then have i: "in_int64 (range_end r + 1)"
    using c(2) E Cons.prems(3) by (auto simp: in_int64_def)
  have 1: "tiled S b1 (range_end r + 1)"
    using fetch_range_tiled [OF ok i, of fuel ctxErr k "range_start r" b1 k1] f st(1) c(1,2) Cons.prems(3)
    by simp
  have 2: "tiled (range_end r + 1) b2 E"
    using Cons.IH [OF _ c(3) i] w st(2,4) by simp
  show ?case
    using tiled_append [OF 1 2] st(3) by simp
qed

lemma runWorker_returns:
  assumes ok: "\<forall>k s e es. s \<le> e \<and> client k s e = Got es \<longrightarrow>
        1 \<le> length es \<and> int (length es) \<le> e - s + 1"
    and ev: "\<forall>k s e. N \<le> k \<longrightarrow> client k s e \<noteq> Failed"
    and nc: "\<forall>k. \<not> ctxErr k"
    and E: "in_int64 E"
  shows "chained S rs E \<Longrightarrow> in_int64 S \<Longrightarrow> N + nat (E - S) \<le> fuel \<Longrightarrow>
    \<exists>bs k'. runWorker fuel ctxErr client k rs = (bs, k', Finished)"
proof (induction rs arbitrary: S k)
  case Nil
  then show ?case by simp
next
  case (Cons r rs)
  from Cons.prems(1) have c: "range_start r = S" "S \<le> range_end r" "chained (range_end r + 1) rs E"
    by auto
  have le: "range_end r + 1 \<le> E" using chained_le [OF c(3)] .
  then have i: "in_int64 (range_end r + 1)"
    using c(2) E Cons.prems(2) by (auto simp: in_int64_def)
  have "(N - k) + nat (range_end r + 1 - S) \<le> fuel"
    using Cons.prems(3) le by linarith
  from fetch_range_returns [OF ok ev nc i Cons.prems(2) _ this] c(2)
  obtain b1 k1 where f: "fetch_range fuel ctxErr client k (range_start r) (range_end r) = (b1, k1, Finished)"
    by (auto simp: c(1))
  have "N + nat (E - (range_end r + 1)) \<le> fuel"
    using Cons.prems(3) c(2) by linarith
  from Cons.IH [OF c(3) i this, of k1] obtain b2 k2 where
    "runWorker fuel ctxErr client k1 rs = (b2, k2, Finished)" by blast
  with f show ?case by simp
qed

lemma genRanges_loop_empty:
  "stop \<le> start \<Longrightarrow> genRanges_loop fuel cancelled sths False batch i k start stop = Some []"
  by (cases fuel) auto


text \<open>
  Claim C7, as amended. In non-continuous mode with \<open>ParallelFetch \<ge> 1\<close> and
  \<open>BatchSize \<ge> 1\<close>, when \<open>GetSTH\<close> succeeds, no context is cancelled, the errors of
  \<open>GetRawEntries\<close> stop after finitely many requests, and every successful
  \<open>GetRawEntries(start, end)\<close> returns between 1 and \<open>end - start + 1\<close> entries, \<open>Run\<close>
  returns, and the batches it delivered have pairwise disjoint index spans
  \<open>[Start, Start + len(Entries))\<close> whose union is \<open>[StartIndex, EndIndex)\<close>, with
  \<open>EndIndex\<close> as \<open>Prepare\<close> set it.
\<close>

theorem Run_covers:
  assumes cfg: "\<not> Continuous opts" "1 \<le> ParallelFetch opts" "1 \<le> BatchSize opts"
      "in_int64 (BatchSize opts)" "in_int64 (StartIndex opts)" "in_int64 (EndIndex opts)" "in_int64 sz"
    and nc: "\<forall>i. \<not> cancelled i" "\<forall>k. \<not> ctxErr k"
    and ok: "\<forall>k s e es. s \<le> e \<and> client k s e = Got es \<longrightarrow>
        1 \<le> length es \<and> int (length es) \<le> e - s + 1"
    and ev: "\<forall>k s e. N \<le> k \<longrightarrow> client k s e \<noteq> Failed"
  shows "(\<exists>fuel bs. Run fuel cancelled ctxErr sths (Some sz) client opts = Some (bs, Finished)) \<and>
    (\<forall>fuel bs. Run fuel cancelled ctxErr sths (Some sz) client opts = Some (bs, Finished) \<longrightarrow>
       (\<Union>b \<in> set bs. span b) =
         {StartIndex opts ..< EndIndex (the (Prepare (Some sz) opts))} \<and>
       (\<forall>i j. i < j \<and> j < length bs \<longrightarrow> span (bs ! i) \<inter> span (bs ! j) = {}))"
proof -
  define opts' where "opts' = the (Prepare (Some sz) opts)"
  let ?S = "StartIndex opts" and ?E = "EndIndex opts'" and ?B = "BatchSize opts"
  have p: "Prepare (Some sz) opts = Some opts'"
    by (simp add: opts'_def Prepare_def)
  have same: "Continuous opts' = Continuous opts" "BatchSize opts' = ?B"
    "StartIndex opts' = ?S" "ParallelFetch opts' = ParallelFetch opts"
    by (simp_all add: opts'_def Prepare_def)
  have E: "in_int64 ?E"
    using cfg(6,7) by (simp add: opts'_def Prepare_def)
  have run: "Run fuel cancelled ctxErr sths (Some sz) client opts =
      Some (case genRanges_loop fuel cancelled sths False ?B 0 0 ?S ?E of
              None \<Rightarrow> ([], Running)
            | Some ranges \<Rightarrow> (case runWorker fuel ctxErr client 0 ranges of (bs, k, st) \<Rightarrow> (bs, st)))"
    for fuel
    using cfg(1,2) by (simp add: Run_def p genRanges_def same)
  have good: "(\<Union>b \<in> set bs. span b) = {?S ..< ?E} \<and>
       (\<forall>i j. i < j \<and> j < length bs \<longrightarrow> span (bs ! i) \<inter> span (bs ! j) = {})"
    if r: "Run fuel cancelled ctxErr sths (Some sz) client opts = Some (bs, Finished)"
    for fuel bs
  proof -
    from r obtain rs k where rs: "genRanges_loop fuel cancelled sths False ?B 0 0 ?S ?E = Some rs"
      and w: "runWorker fuel ctxErr client 0 rs = (bs, k, Finished)"
      by (auto simp: run split: option.splits prod.splits)
    show ?thesis
    proof (cases "?S \<le> ?E")
      case True
      from genRanges_loop_chained [OF cfg(3,4) E rs nc(1) cfg(5) True]
      have "chained ?S rs ?E" by simp
      from runWorker_tiled [OF ok E w this cfg(5)] have t: "tiled ?S bs ?E" .
      show ?thesis
      proof (intro conjI allI impI)
        show "(\<Union>b \<in> set bs. span b) = {?S ..< ?E}"
          using tiled_union [OF t] .
      next
        fix i j
        assume "i < j \<and> j < length bs"
        then show "span (bs ! i) \<inter> span (bs ! j) = {}"
          using tiled_disjoint [OF t, of i j] by simp
      qed
    next
      case False
      then have "rs = []"
        using rs genRanges_loop_empty [of ?E ?S fuel cancelled sths ?B 0 0] by simp
      with w False show ?thesis by simp
    qed
  qed
  have ex: "\<exists>fuel bs. Run fuel cancelled ctxErr sths (Some sz) client opts = Some (bs, Finished)"
  proof (cases "?S \<le> ?E")
    case True
    let ?f = "N + nat (?E - ?S)"
    have "nat (?E - ?S) \<le> ?f" by simp
    from genRanges_loop_returns [OF cfg(3,4) E nc(1) cfg(5) this, of sths 0 0]
    obtain rs where rs: "genRanges_loop ?f cancelled sths False ?B 0 0 ?S ?E = Some rs"
      by blast
    from genRanges_loop_chained [OF cfg(3,4) E rs nc(1) cfg(5) True]
    have c: "chained ?S rs ?E" by simp
    from runWorker_returns [OF ok ev nc(2) E c cfg(5) order_refl, of 0]
    obtain bs k where "runWorker ?f ctxErr client 0 rs = (bs, k, Finished)"
      by blast
    with rs have "Run ?f cancelled ctxErr sths (Some sz) client opts = Some (bs, Finished)"
      by (simp add: run)
    then show ?thesis by blast
  next
    case False
    then have "genRanges_loop 0 cancelled sths False ?B 0 0 ?S ?E = Some []"
      by simp
    then have "Run 0 cancelled ctxErr sths (Some sz) client opts = Some ([], Finished)"
      by (simp add: run)
    then show ?thesis by blast
  qed
  from ex good show ?thesis
    unfolding opts'_def by blast
qed

theorem Run_covers_witness:
  "\<exists>fuel bs. Run fuel (\<lambda>i. False) (\<lambda>k. False) (\<lambda>k. None) (Some 3) (\<lambda>k s e. Got [k])
       \<lparr>BatchSize = 2, ParallelFetch = 2, StartIndex = 0, EndIndex = 0, Continuous = False\<rparr> =
       Some (bs, Finished) \<and>
     (\<Union>b \<in> set bs. span b) = {0 ..< 3}"
proof -
  let ?o = "\<lparr>BatchSize = 2, ParallelFetch = 2, StartIndex = 0, EndIndex = 0, Continuous = False\<rparr>"
  let ?c = "\<lambda>(k :: nat) (s :: int) (e :: int). Got [k]"
  have "(\<exists>fuel bs. Run fuel (\<lambda>i. False) (\<lambda>k. False) (\<lambda>k. None) (Some 3) ?c ?o = Some (bs, Finished)) \<and>
    (\<forall>fuel bs. Run fuel (\<lambda>i. False) (\<lambda>k. False) (\<lambda>k. None) (Some 3) ?c ?o = Some (bs, Finished) \<longrightarrow>
       (\<Union>b \<in> set bs. span b) = {StartIndex ?o ..< EndIndex (the (Prepare (Some 3) ?o))} \<and>
       (\<forall>i j. i < j \<and> j < length bs \<longrightarrow> span (bs ! i) \<inter> span (bs ! j) = {}))"
    by (rule Run_covers [where N = 0]) (auto simp: in_int64_def)
  then show ?thesis by (fastforce simp: Prepare_def)
qed

text \<open>
  Claim C7 as stated fails for \<open>ParallelFetch = 0\<close>: no worker is started, \<open>Run\<close>
  returns with no batch delivered, and \<open>[0, 10)\<close> is not covered.
\<close>

theorem Run_covers_counterexample:
  "Run 5 (\<lambda>i. False) (\<lambda>k. False) (\<lambda>k. None) (Some 10)
     (\<lambda>k s e. Got (replicate (nat (e - s + 1)) (0 :: nat)))
     \<lparr>BatchSize = 2, ParallelFetch = 0, StartIndex = 0, EndIndex = 0, Continuous = False\<rparr> =
   Some ([], Finished) \<and> {0 ..< 10 :: int} \<noteq> {}"
  by (simp add: Run_def Prepare_def)

text \<open>
  Claim C3, as amended. A \<open>GetRawEntries\<close> call that succeeds with zero entries for a
  range not yet covered is handled like every other success: the callback receives a
  batch with no entries, \<open>r.start\<close> does not move, and the same range is requested
  again. While the log keeps answering so and the context is not cancelled, the worker
  stays in the loop, calling the callback with an empty batch each time.
\<close>

theorem fetch_range_zero_entries:
  assumes "start \<le> stop" "in_int64 start" "\<forall>k. \<not> ctxErr k"
  shows "(\<forall>k fuel. client k start stop = Got [] \<longrightarrow>
            fetch_range (Suc fuel) ctxErr client k start stop =
              (case fetch_range fuel ctxErr client (Suc k) start stop of
                 (bs, k', st) \<Rightarrow> (\<lparr>Start = start, Entries = []\<rparr> # bs, k', st))) \<and>
         ((\<forall>k. client k start stop = Got []) \<longrightarrow>
            (\<forall>k fuel. fetch_range fuel ctxErr client k start stop =
               (replicate fuel \<lparr>Start = start, Entries = []\<rparr>, k + fuel, Running)))"
proof -
  have a: "add64 start (int (length ([] :: 'a list))) = start"
    using assms(2) by (simp add: add64_def wrap64_id)
  have 1: "fetch_range (Suc fuel) ctxErr client k start stop =
              (case fetch_range fuel ctxErr client (Suc k) start stop of
                 (bs, k', st) \<Rightarrow> (\<lparr>Start = start, Entries = []\<rparr> # bs, k', st))"
    if "client k start stop = Got []" for k fuel
    using that assms(1) spec [OF assms(3), of k] a by simp
  have 2: "fetch_range fuel ctxErr client k start stop =
               (replicate fuel \<lparr>Start = start, Entries = []\<rparr>, k + fuel, Running)"
    if all: "\<forall>k. client k start stop = Got []" for k fuel
  proof (induction fuel arbitrary: k)
    case 0
    then show ?case using assms(1) by simp
  next
    case (Suc fuel)
    show ?case
      using 1 [OF spec [OF all, of k], of fuel] Suc.IH [of "Suc k"] by simp
  qed
  from 1 2 show ?thesis by blast
qed

theorem fetch_range_zero_entries_witness:
  "fetch_range 2 (\<lambda>k. False) (\<lambda>k s e. Got ([] :: nat list)) 0 5 6 =
     ([\<lparr>Start = 5, Entries = []\<rparr>, \<lparr>Start = 5, Entries = []\<rparr>], 2, Running)"
proof -
  have "(5 :: int) \<le> 6" "in_int64 5" "\<forall>k :: nat. \<not> (\<lambda>k. False) k"
    by (simp_all add: in_int64_def)
  from fetch_range_zero_entries [OF this, of "\<lambda>k s e. Got ([] :: nat list)"]
  have "fetch_range 2 (\<lambda>k. False) (\<lambda>k s e. Got ([] :: nat list)) 0 5 6 =
     (replicate 2 \<lparr>Start = 5, Entries = []\<rparr>, 0 + 2, Running)"
    by blast
  then show ?thesis by (simp add: numeral_2_eq_2)
qed


text \<open>
  Claim C3 as stated fails: a first response with zero entries is passed to the callback
  as a batch, before the second response covers the range \<open>[5, 6]\<close>.
\<close>

theorem fetch_range_zero_entries_counterexample:
  "fetch_range 2 (\<lambda>k. False) (\<lambda>k s e. if k = 0 then Got [] else Got [10, 11 :: nat]) 0 5 6 =
   ([\<lparr>Start = 5, Entries = []\<rparr>, \<lparr>Start = 5, Entries = [10, 11]\<rparr>], 2, Finished)"
  by (simp add: numeral_2_eq_2 add64_def wrap64_def)

section \<open>hashBag leaves its argument alone\<close>

lemma Swap_st_frame:
  "length (Swap_st st b i j) = length st \<and> (\<forall>a. a \<noteq> b \<longrightarrow> Swap_st st b i j ! a = st ! a)"
  by (simp add: Swap_st_def Let_def)

lemma insert_down_st_frame:
  "insert_down_st st b j = Inr st' \<Longrightarrow>
     length st' = length st \<and> (\<forall>a. a \<noteq> b \<longrightarrow> st' ! a = st ! a)"
proof (induction j arbitrary: st)
  case 0
  then show ?case by simp
next
  case (Suc j)
  show ?case
  proof (cases "Less_st st b (Suc j) j")
    case (Inl e)
    with Suc.prems show ?thesis by simp
  next
    case (Inr lt)
    show ?thesis
    proof (cases lt)
      case True
      with Suc.prems Inr have "insert_down_st (Swap_st st b (Suc j) j) b j = Inr st'"
        by simp
      from Suc.IH [OF this] show ?thesis
        using Swap_st_frame [of st b "Suc j" j] by simp
    next
      case False
      with Suc.prems Inr show ?thesis by simp
    qed
  qed
qed

lemma sort_loop_st_frame:
  "sort_loop_st st b is = Inr st' \<Longrightarrow>
     length st' = length st \<and> (\<forall>a. a \<noteq> b \<longrightarrow> st' ! a = st ! a)"
proof (induction "is" arbitrary: st)
  case Nil
  then show ?case by simp
next
  case (Cons i "is")
  from Cons.prems obtain st1 where 1: "insert_down_st st b i = Inr st1"
    and 2: "sort_loop_st st1 b is = Inr st'"
    by (auto split: sum.splits)
  from insert_down_st_frame [OF 1] Cons.IH [OF 2] show ?case by simp
qed

lemma copy_st_frame:
  "length (copy_st st d s) = length st \<and> (\<forall>x. x \<noteq> d \<longrightarrow> copy_st st d s ! x = st ! x)"
  by (simp add: copy_st_def Let_def)

lemma hashBag_st_frame:
  assumes "hashBag_st st a = Inr (h, st')"
  shows "take (length st) st' = st"
proof -
  let ?b = "length st"
  let ?st1 = "st @ [replicate (Len_st st a) None]"
  from assms have s: "sort_Sort_st (copy_st ?st1 ?b a) ?b = Inr st'"
    by (auto simp: hashBag_st_def make_slice_def split: sum.splits)
  have c: "length (copy_st ?st1 ?b a) = Suc ?b"
    "\<forall>x. x \<noteq> ?b \<longrightarrow> copy_st ?st1 ?b a ! x = ?st1 ! x"
    using copy_st_frame [of ?st1 ?b a] by simp_all
  from sort_loop_st_frame [OF s [unfolded sort_Sort_st_def]] c
  have l: "length st' = Suc ?b" and f: "\<forall>x. x \<noteq> ?b \<longrightarrow> st' ! x = ?st1 ! x"
    by simp_all
  show ?thesis
  proof (rule nth_equalityI)
    show "length (take ?b st') = length st" using l by simp
  next
    fix i
    assume "i < length (take ?b st')"
    then have "i < ?b" by simp
    then show "take ?b st' ! i = st ! i"
      using f by (simp add: nth_append)
  qed
qed


lemma length_insert_down: "length (insert_down xs j) = length xs"
  by (induction j arbitrary: xs) (auto simp: bag_Swap_def Let_def)

lemma length_foldl_insert_down: "length (foldl insert_down xs js) = length xs"
  by (induction js arbitrary: xs) (auto simp: length_insert_down)

lemma update_same: "st ! b = v \<Longrightarrow> st[b := v] = st"
  using list_update_id [of st b] by simp

lemma map_Some_the: "None \<notin> set ys \<Longrightarrow> map Some (map the ys) = ys"
  by (induction ys) auto

lemma insert_down_st_sim:
  "b < length st \<Longrightarrow> st ! b = map Some xs \<Longrightarrow> j < length xs \<Longrightarrow>
     insert_down_st st b j = Inr (st[b := map Some (insert_down xs j)])"
proof (induction j arbitrary: xs st)
  case 0
  then show ?case by (simp add: update_same)
next
  case (Suc j)
  have ls: "Less_st st b (Suc j) j = Inr (bag_Less xs (Suc j) j)"
    using Suc.prems by (simp add: Less_st_def bag_Less_def)
  show ?case
  proof (cases "bag_Less xs (Suc j) j")
    case False
    with ls Suc.prems show ?thesis by (simp add: update_same)
  next
    case True
    let ?xs = "bag_Swap xs (Suc j) j"
    let ?st = "st[b := map Some ?xs]"
    have sw: "Swap_st st b (Suc j) j = ?st"
      using Suc.prems by (simp add: Swap_st_def bag_Swap_def Let_def map_update)
    have "insert_down_st ?st b j = Inr (?st[b := map Some (insert_down ?xs j)])"
      using Suc.prems by (intro Suc.IH) (simp_all add: bag_Swap_def Let_def)
    with ls True sw show ?thesis by simp
  qed
qed

lemma sort_loop_st_sim:
  "b < length st \<Longrightarrow> st ! b = map Some xs \<Longrightarrow> \<forall>j \<in> set js. j < length xs \<Longrightarrow>
     sort_loop_st st b js = Inr (st[b := map Some (foldl insert_down xs js)])"
proof (induction js arbitrary: xs st)
  case Nil
  then show ?case by (simp add: update_same)
next
  case (Cons j js)
  let ?xs = "insert_down xs j"
  let ?st = "st[b := map Some ?xs]"
  have 1: "insert_down_st st b j = Inr ?st"
    using Cons.prems by (intro insert_down_st_sim) simp_all
  have "sort_loop_st ?st b js = Inr (?st[b := map Some (foldl insert_down ?xs js)])"
    using Cons.prems by (intro Cons.IH) (simp_all add: length_insert_down)
  with 1 show ?case by simp
qed

lemma hashBag_st_value:
  assumes a: "a < length st" and nn: "None \<notin> set (st ! a)"
  shows "\<exists>st'. hashBag_st st a = Inr (hashBag (map the (st ! a)), st')"
proof -
  let ?xs = "map the (st ! a)"
  let ?b = "length st"
  let ?st1 = "st @ [replicate (Len_st st a) None]"
  let ?st2 = "copy_st ?st1 ?b a"
  have xs: "st ! a = map Some ?xs"
    using map_Some_the [OF nn] by simp
  have b: "?b < length ?st2"
    using copy_st_frame [of ?st1 ?b a] by simp
  have "?st2 ! ?b = st ! a"
    using a by (simp add: copy_st_def Let_def Len_st_def nth_append)
  then have c: "?st2 ! ?b = map Some ?xs"
    using xs by simp
  have "sort_loop_st ?st2 ?b [1 ..< length ?xs] =
      Inr (?st2[?b := map Some (foldl insert_down ?xs [1 ..< length ?xs])])"
    using b c by (intro sort_loop_st_sim) simp_all
  then have s: "sort_Sort_st ?st2 ?b = Inr (?st2[?b := map Some (sort_Sort ?xs)])"
    using c by (simp add: sort_Sort_st_def sort_Sort_def Len_st_def)
  have "hashChain_st (?st2[?b := map Some (sort_Sort ?xs)]) ?b = Inr (hashChain (sort_Sort ?xs))"
    using b by (auto simp: hashChain_st_def comp_def)
  with s show ?thesis
    by (simp add: hashBag_st_def make_slice_def hashBag_def)
qed

text \<open>
  Claim C10. \<open>hashBag\<close> does not change its argument: when the call on the slice at
  address \<open>a\<close> returns, every array that existed before the call, the one of the
  argument among them, holds the same pointers in the same order as before; the sorting
  happened in the array allocated by the call. For a chain of non-nil certificates the
  call returns, with the value of \<open>hashBag\<close> on the chain.
\<close>

theorem hashBag_st_preserves_argument:
  "a < length st \<Longrightarrow>
     (\<forall>h st'. hashBag_st st a = Inr (h, st') \<longrightarrow> take (length st) st' = st \<and> st' ! a = st ! a) \<and>
     (None \<notin> set (st ! a) \<longrightarrow>
        (\<exists>st'. hashBag_st st a = Inr (hashBag (map the (st ! a)), st')))"
proof (intro conjI allI impI)
  fix h st'
  assume a: "a < length st" and r: "hashBag_st st a = Inr (h, st')"
  show t: "take (length st) st' = st"
    using hashBag_st_frame [OF r] .
  have "take (length st) st' ! a = st' ! a"
    using a by simp
  with t show "st' ! a = st ! a" by simp
next
  assume "a < length st" "None \<notin> set (st ! a)"
  then show "\<exists>st'. hashBag_st st a = Inr (hashBag (map the (st ! a)), st')"
    by (rule hashBag_st_value)
qed

theorem hashBag_st_preserves_argument_witness:
  "\<exists>st'. hashBag_st [[Some \<lparr>Raw = [2, 1]\<rparr>, Some \<lparr>Raw = [7]\<rparr>]] 0 =
           Inr (hashBag [\<lparr>Raw = [2, 1]\<rparr>, \<lparr>Raw = [7]\<rparr>], st') \<and>
         st' ! 0 = [Some \<lparr>Raw = [2, 1]\<rparr>, Some \<lparr>Raw = [7]\<rparr>]"
proof -
  let ?st = "[[Some \<lparr>Raw = [2, 1 :: byte]\<rparr>, Some \<lparr>Raw = [7]\<rparr>]]"
  have h: "0 < length ?st" by simp
  from hashBag_st_preserves_argument [OF h]
  have 1: "\<forall>h st'. hashBag_st ?st 0 = Inr (h, st') \<longrightarrow> st' ! 0 = ?st ! 0"
    and 2: "\<exists>st'. hashBag_st ?st 0 = Inr (hashBag (map the (?st ! 0)), st')"
    by simp_all
  from 2 obtain st' where "hashBag_st ?st 0 = Inr (hashBag (map the (?st ! 0)), st')" ..
  with 1 show ?thesis by fastforce
qed

end
